theory Spec2Isabelle
  imports Main "HOL-Library.Sublist"
begin

section \<open>The file system the script runs on\<close>

text \<open>
  \<^verbatim>\<open>scripts/cleanup.py\<close> only talks to the file system, through \<^verbatim>\<open>os.remove\<close>,
  \<^verbatim>\<open>shutil.rmtree\<close>, \<^verbatim>\<open>os.walk\<close>, \<^verbatim>\<open>os.path.isfile\<close> and \<^verbatim>\<open>os.path.join\<close>.
  The file system is a tree. A directory lists its entries in the order \<^verbatim>\<open>scandir\<close>
  reports them and carries one permission bit, whether entries may be added to or removed
  from it (write permission on the directory, which is what \<^verbatim>\<open>unlink\<close> and \<^verbatim>\<open>rmdir\<close>
  ask for). A symbolic link stores its target as an absolute path, already split in
  components. Hard links, relative link targets and the components \<^verbatim>\<open>.\<close> and \<^verbatim>\<open>..\<close>
  are not modelled: \<^verbatim>\<open>os.path.abspath\<close> removes them from the root path and a directory
  listing never holds them.
\<close>

type_synonym path = "string list"

datatype node = File string | Dir bool "(string \<times> node) list" | Link path

datatype exn =
  FileNotFoundError | NotADirectoryError | IsADirectoryError | PermissionError | OSError

text \<open>Looking a path up component by component, without following any link.\<close>

fun lookup :: "node \<Rightarrow> path \<Rightarrow> node option"
  and lookup_in :: "(string \<times> node) list \<Rightarrow> string \<Rightarrow> path \<Rightarrow> node option" where
  "lookup n [] = Some n"
| "lookup (Dir w es) (c # cs) = lookup_in es c cs"
| "lookup (File d) (c # cs) = None"
| "lookup (Link t) (c # cs) = None"
| "lookup_in [] c cs = None"
| "lookup_in ((n, x) # r) c cs = (if n = c then lookup x cs else lookup_in r c cs)"

text \<open>Applying a function to the entry list of the directory at a path.\<close>

fun modify_at :: "path \<Rightarrow> ((string \<times> node) list \<Rightarrow> (string \<times> node) list) \<Rightarrow> node \<Rightarrow> node"
  and modify_in :: "string \<Rightarrow> path \<Rightarrow> ((string \<times> node) list \<Rightarrow> (string \<times> node) list) \<Rightarrow>
        (string \<times> node) list \<Rightarrow> (string \<times> node) list" where
  "modify_at [] f (Dir w es) = Dir w (f es)"
| "modify_at (c # cs) f (Dir w es) = Dir w (modify_in c cs f es)"
| "modify_at p f (File d) = File d"
| "modify_at p f (Link t) = Link t"
| "modify_in c cs f [] = []"
| "modify_in c cs f ((n, x) # r) =
     (if n = c then (n, modify_at cs f x) # r else (n, x) # modify_in c cs f r)"

definition unlink_entry :: "path \<Rightarrow> string \<Rightarrow> node \<Rightarrow> node" where
  "unlink_entry p n d = modify_at p (filter (\<lambda>e. fst e \<noteq> n)) d"

text \<open>
  Path resolution as the kernel does it: every symbolic link met on the way is followed,
  the last component included, and the walk gives up (\<^verbatim>\<open>ELOOP\<close>, an \<^verbatim>\<open>OSError\<close>) after
  \<^verbatim>\<open>MAXSYMLINKS\<close> links. \<open>cur\<close> is the directory reached so far, as a link-free path
  from the root; the result is the link-free path of the node the name denotes.
\<close>

definition MAXSYMLINKS :: nat where
  "MAXSYMLINKS = 40"

fun resolve :: "nat \<Rightarrow> node \<Rightarrow> path \<Rightarrow> path \<Rightarrow> exn + path" where
  "resolve k d cur [] = Inr cur"
| "resolve k d cur (c # cs) =
     (case lookup d cur of
        None \<Rightarrow> Inl FileNotFoundError
      | Some (Dir w es) \<Rightarrow>
          (case lookup d (cur @ [c]) of
             None \<Rightarrow> Inl FileNotFoundError
           | Some (Link t) \<Rightarrow>
               (case k of 0 \<Rightarrow> Inl OSError | Suc k' \<Rightarrow> resolve k' d [] (t @ cs))
           | Some x \<Rightarrow> resolve k d (cur @ [c]) cs)
      | Some x \<Rightarrow> Inl NotADirectoryError)"

text \<open>A path string split at \<^verbatim>\<open>/\<close>; empty components (doubled or trailing slashes) drop out.\<close>

fun splitc :: "string \<Rightarrow> string \<Rightarrow> path" where
  "splitc cur [] = (if cur = [] then [] else [cur])"
| "splitc cur (c # s) =
     (if c = CHR ''/'' then (if cur = [] then [] else [cur]) @ splitc [] s
      else splitc (cur @ [c]) s)"

definition components :: "string \<Rightarrow> path" where
  "components s = splitc [] s"

text \<open>\<^verbatim>\<open>stat\<close> follows a link in the last component, \<^verbatim>\<open>lstat\<close> does not.\<close>

definition stat :: "node \<Rightarrow> string \<Rightarrow> exn + path" where
  "stat d s =
     (case resolve MAXSYMLINKS d [] (components s) of
        Inl e \<Rightarrow> Inl e
      | Inr p \<Rightarrow> (case lookup d p of None \<Rightarrow> Inl FileNotFoundError | Some x \<Rightarrow> Inr p))"

definition lstat :: "node \<Rightarrow> string \<Rightarrow> exn + path" where
  "lstat d s =
     (let cs = components s in
      if cs = [] then Inr []
      else
        (case resolve MAXSYMLINKS d [] (butlast cs) of
           Inl e \<Rightarrow> Inl e
         | Inr p \<Rightarrow>
             (case lookup d p of
                Some (Dir w es) \<Rightarrow>
                  (case lookup d (p @ [last cs]) of
                     None \<Rightarrow> Inl FileNotFoundError
                   | Some x \<Rightarrow> Inr (p @ [last cs]))
              | Some x \<Rightarrow> Inl NotADirectoryError
              | None \<Rightarrow> Inl FileNotFoundError)))"

subsection \<open>The library calls of the script\<close>

text \<open>\<^verbatim>\<open>posixpath.join(a, b)\<close>.\<close>

definition os_path_join :: "string \<Rightarrow> string \<Rightarrow> string" where
  "os_path_join a b =
     (if b \<noteq> [] \<and> hd b = CHR ''/'' then b
      else if a = [] \<or> last a = CHR ''/'' then a @ b
      else a @ ''/'' @ b)"

text \<open>\<^verbatim>\<open>str.endswith(tuple)\<close>: some element of the tuple is a suffix of the string.\<close>

definition endswith :: "string \<Rightarrow> string list \<Rightarrow> bool" where
  "endswith s sufs = list_ex (\<lambda>e. suffix e s) sufs"

text \<open>\<^verbatim>\<open>os.path.isfile\<close>, \<^verbatim>\<open>os.path.isdir\<close>: \<^verbatim>\<open>stat\<close>, with every error read as \<^verbatim>\<open>False\<close>.\<close>

definition os_path_isfile :: "node \<Rightarrow> string \<Rightarrow> bool" where
  "os_path_isfile d s =
     (case stat d s of
        Inl e \<Rightarrow> False
      | Inr p \<Rightarrow> (case lookup d p of Some (File c) \<Rightarrow> True | _ \<Rightarrow> False))"

definition os_path_isdir :: "node \<Rightarrow> string \<Rightarrow> bool" where
  "os_path_isdir d s =
     (case stat d s of
        Inl e \<Rightarrow> False
      | Inr p \<Rightarrow> (case lookup d p of Some (Dir w es) \<Rightarrow> True | _ \<Rightarrow> False))"

text \<open>
  \<^verbatim>\<open>os.remove\<close> is \<^verbatim>\<open>unlink\<close>: the last component is not followed, so on a symbolic link
  it removes the link. It needs write permission on the parent directory and refuses a
  directory.
\<close>

definition os_remove :: "string \<Rightarrow> node \<Rightarrow> exn + node" where
  "os_remove s d =
     (case lstat d s of
        Inl e \<Rightarrow> Inl e
      | Inr p \<Rightarrow>
          (if p = [] then Inl IsADirectoryError
           else
             (case lookup d (butlast p) of
                Some (Dir w es) \<Rightarrow>
                  (if \<not> w then Inl PermissionError
                   else
                     (case lookup d p of
                        Some (Dir w' es') \<Rightarrow> Inl IsADirectoryError
                      | _ \<Rightarrow> Inr (unlink_entry (butlast p) (last p) d)))
              | _ \<Rightarrow> Inl NotADirectoryError)))"

text \<open>
  \<^verbatim>\<open>shutil.rmtree(path, ignore_errors=True)\<close>. \<open>rm_entries w es\<close> is what is left of the
  entries \<open>es\<close> of a directory with write permission \<open>w\<close>: a subdirectory is emptied
  first and removed when nothing is left of it, anything else is unlinked, and every
  failure is passed over. On a path that is a regular file or a symbolic link, or that
  does not resolve, the call changes nothing: \<^verbatim>\<open>rmtree\<close> refuses a link, \<^verbatim>\<open>scandir\<close> and
  \<^verbatim>\<open>rmdir\<close> refuse a file, and the errors are ignored.
\<close>

fun rm_entries :: "bool \<Rightarrow> (string \<times> node) list \<Rightarrow> (string \<times> node) list" where
  "rm_entries w [] = []"
| "rm_entries w ((n, Dir w' es) # r) =
     (let es' = rm_entries w' es
      in (if w \<and> es' = [] then [] else [(n, Dir w' es')]) @ rm_entries w r)"
| "rm_entries w ((n, File c) # r) = (if w then [] else [(n, File c)]) @ rm_entries w r"
| "rm_entries w ((n, Link t) # r) = (if w then [] else [(n, Link t)]) @ rm_entries w r"

definition os_rmdir_ignore :: "path \<Rightarrow> node \<Rightarrow> node" where
  "os_rmdir_ignore p d =
     (if p = [] then d
      else
        (case (lookup d (butlast p), lookup d p) of
           (Some (Dir w es), Some (Dir w' [])) \<Rightarrow>
             (if w then unlink_entry (butlast p) (last p) d else d)
         | _ \<Rightarrow> d))"

definition shutil_rmtree_ignore_errors :: "string \<Rightarrow> node \<Rightarrow> node" where
  "shutil_rmtree_ignore_errors s d =
     (case lstat d s of
        Inl e \<Rightarrow> d
      | Inr p \<Rightarrow>
          (case lookup d p of
             Some (Dir w es) \<Rightarrow> os_rmdir_ignore p (modify_at p (rm_entries w) d)
           | _ \<Rightarrow> d))"

text \<open>
  \<^verbatim>\<open>os.walk(top)\<close>, top down, links not followed, errors of \<^verbatim>\<open>scandir\<close> ignored (the
  defaults). An entry goes to the directory names when \<^verbatim>\<open>DirEntry.is_dir()\<close> holds, which
  follows a link, and to the file names otherwise; only real directories are descended
  into. \<^verbatim>\<open>os.walk\<close> is a generator and lists a directory when it reaches it; the loop bodies
  of the script unlink only entries that are not directories, which changes the listing
  of no directory still to come, so the triples are computed from the tree as it is when
  the loop starts.
\<close>

definition is_dir_entry :: "node \<Rightarrow> string \<Rightarrow> string \<times> node \<Rightarrow> bool" where
  "is_dir_entry d dirpath e =
     (case snd e of
        Dir w es \<Rightarrow> True
      | File c \<Rightarrow> False
      | Link t \<Rightarrow> os_path_isdir d (os_path_join dirpath (fst e)))"

fun walk_dir :: "node \<Rightarrow> string \<Rightarrow> (string \<times> node) list \<Rightarrow>
        (string \<times> string list \<times> string list) list"
  and walk_subdirs :: "node \<Rightarrow> string \<Rightarrow> (string \<times> node) list \<Rightarrow>
        (string \<times> string list \<times> string list) list" where
  "walk_dir d dirpath es =
     (dirpath, map fst (filter (is_dir_entry d dirpath) es),
           map fst (filter (\<lambda>e. \<not> is_dir_entry d dirpath e) es)) # walk_subdirs d dirpath es"
| "walk_subdirs d dirpath [] = []"
| "walk_subdirs d dirpath ((n, Dir w es) # r) =
     walk_dir d (os_path_join dirpath n) es @ walk_subdirs d dirpath r"
| "walk_subdirs d dirpath ((n, File c) # r) = walk_subdirs d dirpath r"
| "walk_subdirs d dirpath ((n, Link t) # r) = walk_subdirs d dirpath r"

definition os_walk :: "node \<Rightarrow> string \<Rightarrow> (string \<times> string list \<times> string list) list" where
  "os_walk d dirpath =
     (case stat d dirpath of
        Inl e \<Rightarrow> []
      | Inr p \<Rightarrow> (case lookup d p of Some (Dir w es) \<Rightarrow> walk_dir d dirpath es | _ \<Rightarrow> []))"

section \<open>The script\<close>

definition FILES_TO_CLEAN :: "string set" where
  "FILES_TO_CLEAN = {''.coverage'', ''coverage.xml'', ''dump.rdb''}"

definition DIRS_TO_CLEAN :: "string set" where
  "DIRS_TO_CLEAN =
     {''.nox'', ''.profile'', ''.pytest_cache'', ''__pycache__'', ''build'', ''dist'',
      ''docs/build'', ''coverage.xml'', ''dump.rdb''}"

definition EXTENSIONS_TO_CLEAN :: "string list" where
  "EXTENSIONS_TO_CLEAN = [''.dll'', ''.html'', ''.o'', ''.prof'', ''.pyd'', ''.pyc'', ''.so'']"

text \<open>
  The two lists of names are Python sets of strings, whose iteration order is not fixed
  by the language (string hashes are salted per process). The script is therefore
  modelled for an arbitrary order, given as a list that enumerates the set.
\<close>

definition iterates :: "string list \<Rightarrow> string set \<Rightarrow> bool" where
  "iterates xs S = (set xs = S \<and> distinct xs)"

text \<open>
  The state of a run: the file system, the lines printed so far, and the local
  variable \<^verbatim>\<open>removed_count\<close>. A run ends with \<open>Inr\<close> of the final state, or with
  \<open>Inl\<close> of the exception that was not caught and the state it left behind.
\<close>

record state =
  disk :: node
  stdout :: "string list"
  removed_count :: nat

type_synonym result = "(exn \<times> state) + state"

fun for_each :: "('a \<Rightarrow> 's \<Rightarrow> ('e \<times> 's) + 's) \<Rightarrow> 'a list \<Rightarrow> 's \<Rightarrow> ('e \<times> 's) + 's" where
  "for_each body [] s = Inr s"
| "for_each body (x # xs) s =
     (case body x s of Inl e \<Rightarrow> Inl e | Inr s' \<Rightarrow> for_each body xs s')"

text \<open>Lines 58 to 63: only \<^verbatim>\<open>FileNotFoundError\<close> is caught.\<close>

definition remove_file :: "string \<Rightarrow> string \<Rightarrow> state \<Rightarrow> result" where
  "remove_file root_dir target s =
     (case os_remove (os_path_join root_dir target) (disk s) of
        Inr d \<Rightarrow> Inr (s\<lparr>disk := d, stdout := stdout s @ [''Removed: '' @ target]\<rparr>)
      | Inl FileNotFoundError \<Rightarrow> Inr s
      | Inl e \<Rightarrow> Inl (e, s))"

text \<open>Lines 66 to 68.\<close>

definition remove_dir :: "string \<Rightarrow> string \<Rightarrow> state \<Rightarrow> result" where
  "remove_dir root_dir target s =
     Inr (s\<lparr>disk := shutil_rmtree_ignore_errors (os_path_join root_dir target) (disk s),
            stdout := stdout s @ [''Removing dir: '' @ target]\<rparr>)"

text \<open>Lines 72 to 77, and again 78 to 83.\<close>

definition sweep_file :: "string \<Rightarrow> string \<Rightarrow> state \<Rightarrow> result" where
  "sweep_file root name s =
     (let path = os_path_join root name in
      if os_path_isfile (disk s) path \<and> endswith path EXTENSIONS_TO_CLEAN then
        (case os_remove path (disk s) of
           Inl e \<Rightarrow> Inl (e, s)
         | Inr d \<Rightarrow> Inr (s\<lparr>disk := d, removed_count := removed_count s + 1\<rparr>))
      else Inr s)"

definition sweep :: "string \<Rightarrow> state \<Rightarrow> result" where
  "sweep subtree s =
     for_each (\<lambda>(root, dirs, files). for_each (sweep_file root) files) (os_walk (disk s) subtree) s"

text \<open>\<^verbatim>\<open>f"{n}"\<close> for a natural number.\<close>

fun digits :: "nat \<Rightarrow> string" where
  "digits n =
     (if n < 10 then [char_of (48 + n)] else digits (n div 10) @ [char_of (48 + n mod 10)])"

definition summary_line :: "nat \<Rightarrow> string" where
  "summary_line n = ''Removed '' @ digits n @ '' discrete files by extension.''"

text \<open>
  The body under \<^verbatim>\<open>if __name__ == "__main__"\<close>, for a root directory \<open>root_dir\<close> (line
  54 computes it from the location of the script) and iteration orders \<open>forder\<close> and
  \<open>dorder\<close> of the two sets.
\<close>

definition file_phase :: "string list \<Rightarrow> string \<Rightarrow> state \<Rightarrow> result" where
  "file_phase forder root_dir s = for_each (remove_file root_dir) forder s"

definition dir_phase :: "string list \<Rightarrow> string \<Rightarrow> state \<Rightarrow> result" where
  "dir_phase dorder root_dir s = for_each (remove_dir root_dir) dorder s"

definition extension_sweep :: "string \<Rightarrow> state \<Rightarrow> result" where
  "extension_sweep root_dir s =
     (case sweep (root_dir @ ''/nautilus_trader/'') (s\<lparr>removed_count := 0\<rparr>) of
        Inl e \<Rightarrow> Inl e
      | Inr s' \<Rightarrow> sweep (root_dir @ ''/examples/'') s')"

definition cleanup :: "string list \<Rightarrow> string list \<Rightarrow> string \<Rightarrow> node \<Rightarrow> result" where
  "cleanup forder dorder root_dir d =
     (case file_phase forder root_dir
             \<lparr>disk = d, stdout = [''root_dir='' @ root_dir], removed_count = 0\<rparr> of
        Inl e \<Rightarrow> Inl e
      | Inr s1 \<Rightarrow>
          (case dir_phase dorder root_dir s1 of
             Inl e \<Rightarrow> Inl e
           | Inr s2 \<Rightarrow>
               (case extension_sweep root_dir s2 of
                  Inl e \<Rightarrow> Inl e
                | Inr s3 \<Rightarrow>
                    Inr (s3\<lparr>stdout := stdout s3 @ [summary_line (removed_count s3)]\<rparr>))))"

section \<open>Notions the statements use\<close>

text \<open>
  What \<^verbatim>\<open>lstat\<close> tells about a node: a regular file and its contents, a directory and
  its permission bit, a link and its target.
\<close>

datatype kind = KFile string | KDir bool | KLink path

fun kind_of :: "node \<Rightarrow> kind" where
  "kind_of (File c) = KFile c"
| "kind_of (Dir w es) = KDir w"
| "kind_of (Link t) = KLink t"

definition look :: "node \<Rightarrow> path \<Rightarrow> kind option" where
  "look d p = map_option kind_of (lookup d p)"

text \<open>
  Names in a directory are not empty, hold no slash and are pairwise different, as in
  every real directory.
\<close>

definition valid_name :: "string \<Rightarrow> bool" where
  "valid_name n = (n \<noteq> [] \<and> CHR ''/'' \<notin> set n)"

fun wf_node :: "node \<Rightarrow> bool" and wf_entries :: "(string \<times> node) list \<Rightarrow> bool" where
  "wf_node (Dir w es) = wf_entries es"
| "wf_node (File c) = True"
| "wf_node (Link t) = True"
| "wf_entries [] = True"
| "wf_entries ((n, x) # r) =
     (valid_name n \<and> n \<notin> fst ` set r \<and> wf_node x \<and> wf_entries r)"

text \<open>\<open>below d' d\<close>: every node of \<open>d'\<close> is a node of \<open>d\<close>, of the same kind.\<close>

definition below :: "node \<Rightarrow> node \<Rightarrow> bool" where
  "below d' d = (\<forall>p. look d' p = None \<or> look d' p = look d p)"

section \<open>Example trees\<close>

text \<open>The orders in which the source text lists the two sets.\<close>

definition files_order :: "string list" where
  "files_order = [''.coverage'', ''coverage.xml'', ''dump.rdb'']"

definition dirs_order :: "string list" where
  "dirs_order =
     [''.nox'', ''.profile'', ''.pytest_cache'', ''__pycache__'', ''build'', ''dist'',
      ''docs/build'', ''coverage.xml'', ''dump.rdb'']"


text \<open>A project at \<^verbatim>\<open>/r\<close> where \<^verbatim>\<open>coverage.xml\<close> is a directory.\<close>

definition tree_covdir :: node where
  "tree_covdir =
     Dir True [(''r'', Dir True
       [(''coverage.xml'', Dir True []),
        (''nautilus_trader'', Dir True [(''x.so'', File ''ELF'')])])]"

text \<open>A project at \<^verbatim>\<open>/r\<close> with a \<^verbatim>\<open>__pycache__\<close> inside \<^verbatim>\<open>build\<close>.\<close>

definition tree_nested :: node where
  "tree_nested =
     Dir True [(''r'', Dir True
       [(''build'', Dir True [(''__pycache__'', Dir True [(''m.pyc'', File ''c'')])]),
        (''nautilus_trader'', Dir True [(''__pycache__'', Dir True [])])])]"

text \<open>
  \<open>count_in P es\<close>: the number of entries below \<open>es\<close>, at any depth, that are not
  directories and whose name and node satisfy \<open>P\<close>.
\<close>

fun count_in :: "(string \<Rightarrow> node \<Rightarrow> bool) \<Rightarrow> (string \<times> node) list \<Rightarrow> nat" where
  "count_in P [] = 0"
| "count_in P ((n, Dir w es) # r) = count_in P es + count_in P r"
| "count_in P ((n, File c) # r) = (if P n (File c) then 1 else 0) + count_in P r"
| "count_in P ((n, Link t) # r) = (if P n (Link t) then 1 else 0) + count_in P r"

definition count_leaves :: "(string \<Rightarrow> node \<Rightarrow> bool) \<Rightarrow> node \<Rightarrow> nat" where
  "count_leaves P d = (case d of Dir w es \<Rightarrow> count_in P es | _ \<Rightarrow> 0)"


text \<open>The name test of the sweep.\<close>

definition matches :: "string \<Rightarrow> bool" where
  "matches n = endswith n EXTENSIONS_TO_CLEAN"

text \<open>
  One deletion of the sweep: an entry that is not a directory, whose name ends with one
  of the suffixes, in a writable directory, is unlinked and counted.
\<close>

definition sweep_step :: "state \<Rightarrow> state \<Rightarrow> bool" where
  "sweep_step s s' =
     (\<exists>p n y. matches n \<and> look (disk s) p = Some (KDir True) \<and>
        lookup (disk s) (p @ [n]) = Some y \<and> (\<forall>w es. y \<noteq> Dir w es) \<and>
        s' = s\<lparr>disk := unlink_entry p n (disk s), removed_count := Suc (removed_count s)\<rparr>)"

text \<open>
  \<open>todo s path\<close>: the condition of lines 75 and 81, under which the sweep deletes
  \<open>path\<close>. \<open>triple_done t s\<close>: it holds for no file name of the triple \<open>t\<close> of
  \<^verbatim>\<open>os.walk\<close>.
\<close>

definition todo :: "state \<Rightarrow> string \<Rightarrow> bool" where
  "todo s path = (os_path_isfile (disk s) path \<and> endswith path EXTENSIONS_TO_CLEAN)"

definition triple_done :: "string \<times> string list \<times> string list \<Rightarrow> state \<Rightarrow> bool" where
  "triple_done t s = (\<forall>n \<in> set (snd (snd t)). \<not> todo s (os_path_join (fst t) n))"

definition sweep_body :: "string \<times> string list \<times> string list \<Rightarrow> state \<Rightarrow> result" where
  "sweep_body t = for_each (sweep_file (fst t)) (snd (snd t))"


text \<open>
  The project of the specification's end-to-end scenario, at \<^verbatim>\<open>/r\<close>, before the sweep
  and after it.
\<close>

definition tree_project :: node where
  "tree_project =
     Dir True [(''r'', Dir True
       [(''build'', Dir True [(''lib.o'', File ''obj'')]),
        (''__pycache__'', Dir True []),
        (''.coverage'', File ''cov''),
        (''nautilus_trader'', Dir True
           [(''x.so'', File ''so''), (''keep.py'', File ''py''),
            (''sub'', Dir True [(''y.pyc'', File ''pyc'')])]),
        (''examples'', Dir True [(''z.html'', File ''html'')])])]"

definition tree_project_swept :: node where
  "tree_project_swept =
     Dir True [(''r'', Dir True
       [(''build'', Dir True [(''lib.o'', File ''obj'')]),
        (''__pycache__'', Dir True []),
        (''.coverage'', File ''cov''),
        (''nautilus_trader'', Dir True [(''keep.py'', File ''py''), (''sub'', Dir True [])]),
        (''examples'', Dir True [])])]"

text \<open>\<open>gone root_dir target s\<close>: the path \<^verbatim>\<open>root_dir/target\<close> names nothing.\<close>

definition gone :: "string \<Rightarrow> string \<Rightarrow> state \<Rightarrow> bool" where
  "gone root_dir target s = (lstat (disk s) (os_path_join root_dir target) = Inl FileNotFoundError)"

text \<open>A project at \<^verbatim>\<open>/r\<close> whose root directory is not writable.\<close>

definition tree_readonly :: node where
  "tree_readonly = Dir True [(''r'', Dir False [(''.coverage'', File ''cov'')])]"


text \<open>The tree a run on \<open>tree_project\<close> leaves behind.\<close>

definition tree_project_clean :: node where
  "tree_project_clean =
     Dir True [(''r'', Dir True
       [(''nautilus_trader'', Dir True [(''keep.py'', File ''py''), (''sub'', Dir True [])]),
        (''examples'', Dir True [])])]"

text \<open>A project at \<^verbatim>\<open>/r\<close> where \<^verbatim>\<open>coverage.xml\<close> is a regular file.\<close>

definition tree_covfile :: node where
  "tree_covfile = Dir True [(''r'', Dir True [(''coverage.xml'', File ''<coverage/>'')])]"



text \<open>
  What \<^verbatim>\<open>shutil.rmtree\<close> leaves of a directory it could not remove: \<open>stuck_entries w es\<close>
  says that nothing in the entries \<open>es\<close> of a directory with write permission \<open>w\<close>
  can be deleted, and \<open>stuck_at p d\<close> that the directory at \<open>p\<close>, if there is one, is
  in this state and cannot be removed itself.
\<close>

fun stuck_entries :: "bool \<Rightarrow> (string \<times> node) list \<Rightarrow> bool" where
  "stuck_entries w [] = True"
| "stuck_entries w ((n, Dir w' es) # r) =
     (stuck_entries w' es \<and> (\<not> w \<or> es \<noteq> []) \<and> stuck_entries w r)"
| "stuck_entries w ((n, File c) # r) = (\<not> w \<and> stuck_entries w r)"
| "stuck_entries w ((n, Link t) # r) = (\<not> w \<and> stuck_entries w r)"

definition stuck_at :: "path \<Rightarrow> node \<Rightarrow> bool" where
  "stuck_at p d =
     (case lookup d p of
        Some (Dir w es) \<Rightarrow>
          stuck_entries w es \<and> (es \<noteq> [] \<or> look d (butlast p) \<noteq> Some (KDir True))
      | _ \<Rightarrow> True)"

section \<open>Lemmas\<close>

subsection \<open>Path strings\<close>

lemma splitc_slash:
  "splitc cur (xs @ CHR ''/'' # ys) = splitc cur xs @ splitc [] ys"
  by (induction xs arbitrary: cur) auto

lemma splitc_noslash:
  "CHR ''/'' \<notin> set xs \<Longrightarrow> splitc cur (xs @ ys) = splitc (cur @ xs) ys"
  by (induction xs arbitrary: cur) auto

lemma components_name:
  "n \<noteq> [] \<Longrightarrow> CHR ''/'' \<notin> set n \<Longrightarrow> components n = [n]"
  using splitc_noslash [of n "[]" "[]"] by (simp add: components_def)

lemma components_slash:
  "components (a @ CHR ''/'' # b) = components a @ components b"
  by (simp add: components_def splitc_slash)

lemma components_last_slash:
  assumes "a \<noteq> []" "last a = CHR ''/''"
  shows "components (a @ b) = components a @ components b"
proof -
  from assms obtain a' where a: "a = a' @ [CHR ''/'']"
    by (metis append_butlast_last_id)
  have "components (a @ b) = components a' @ components b"
    using components_slash [of a' b] by (simp add: a)
  moreover have "components a = components a'"
    using components_slash [of a' "[]"] by (simp add: a components_def)
  ultimately show ?thesis by simp
qed

lemma components_Nil [simp]: "components [] = []"
  by (simp add: components_def)

lemma components_join:
  "\<not> (b \<noteq> [] \<and> hd b = CHR ''/'') \<Longrightarrow>
   components (os_path_join a b) = components a @ components b"
  unfolding os_path_join_def
  using components_last_slash [of a b] components_slash [of a b]
  by (cases "a = []") auto

lemma components_join_name:
  "n \<noteq> [] \<Longrightarrow> CHR ''/'' \<notin> set n \<Longrightarrow> components (os_path_join a n) = components a @ [n]"
  using components_join [of n a] components_name [of n]
  by (cases n) auto

lemma splitc_suffix:
  "suffix e s \<Longrightarrow> e \<noteq> [] \<Longrightarrow> CHR ''/'' \<notin> set e \<Longrightarrow>
   splitc cur s \<noteq> [] \<and> suffix e (last (splitc cur s))"
proof (induction s arbitrary: cur)
  case Nil
  then show ?case by simp
next
  case (Cons c s)
  show ?case
  proof (cases "e = c # s")
    case True
    with Cons.prems have "CHR ''/'' \<notin> set (c # s)" by simp
    from splitc_noslash [OF this, of cur "[]"] True show ?thesis
      by (simp add: suffix_def)
  next
    case False
    with Cons.prems have "suffix e s" by (simp add: suffix_Cons)
    from Cons.IH [OF this Cons.prems(2,3)] show ?thesis
      by auto
  qed
qed

lemma components_suffix:
  "suffix e s \<Longrightarrow> e \<noteq> [] \<Longrightarrow> CHR ''/'' \<notin> set e \<Longrightarrow>
   components s \<noteq> [] \<and> suffix e (last (components s))"
  unfolding components_def by (rule splitc_suffix)

lemma endswith_components:
  "endswith s EXTENSIONS_TO_CLEAN \<Longrightarrow>
   components s \<noteq> [] \<and> endswith (last (components s)) EXTENSIONS_TO_CLEAN"
  unfolding endswith_def EXTENSIONS_TO_CLEAN_def list_ex_iff
  using components_suffix [of _ s] by fastforce

text \<open>The test on the joined path is a test on the name.\<close>

lemma suffix_after_slash:
  "CHR ''/'' \<notin> set e \<Longrightarrow> suffix e (a @ CHR ''/'' # n) \<longleftrightarrow> suffix e n"
proof
  assume e: "CHR ''/'' \<notin> set e" and "suffix e (a @ CHR ''/'' # n)"
  then have "suffix e (CHR ''/'' # n) \<or> (\<exists>xs. e = xs @ CHR ''/'' # n)"
    by (auto simp: suffix_append)
  with e show "suffix e n" by (auto simp: suffix_Cons)
next
  assume "suffix e n"
  then show "suffix e (a @ CHR ''/'' # n)"
    by (metis append_Cons append_Nil suffix_appendI suffix_ConsI)
qed

lemma endswith_join:
  assumes "n \<noteq> []" "CHR ''/'' \<notin> set n" "a \<noteq> []"
  shows "endswith (os_path_join a n) EXTENSIONS_TO_CLEAN \<longleftrightarrow> endswith n EXTENSIONS_TO_CLEAN"
proof -
  have hd: "hd n \<noteq> CHR ''/''" using assms by (cases n) auto
  obtain a' where j: "os_path_join a n = a' @ CHR ''/'' # n"
  proof (cases "last a = CHR ''/''")
    case True
    with assms(3) have "a = butlast a @ [CHR ''/'']" by (metis append_butlast_last_id)
    then have "os_path_join a n = butlast a @ CHR ''/'' # n"
      using hd True assms by (simp add: os_path_join_def)
    then show ?thesis using that by blast
  next
    case False
    then have "os_path_join a n = a @ CHR ''/'' # n"
      using hd assms by (simp add: os_path_join_def)
    then show ?thesis using that by blast
  qed
  show ?thesis
    unfolding j endswith_def EXTENSIONS_TO_CLEAN_def list_ex_iff
    by (auto simp: suffix_after_slash)
qed

subsection \<open>Lookup and update\<close>

lemma lookup_append:
  "lookup d (p @ q) = (case lookup d p of None \<Rightarrow> None | Some x \<Rightarrow> lookup x q)"
  "lookup_in es c (cs @ q) = (case lookup_in es c cs of None \<Rightarrow> None | Some x \<Rightarrow> lookup x q)"
  by (induction d p and es c cs rule: lookup_lookup_in.induct) auto

lemma lookup_snoc:
  "lookup d (p @ [n]) =
     (case lookup d p of Some (Dir w es) \<Rightarrow> lookup_in es n [] | _ \<Rightarrow> None)"
  by (auto simp: lookup_append split: option.splits node.splits)

lemma lookup_below_Dir:
  "lookup d (p @ q) = Some x \<Longrightarrow> q \<noteq> [] \<Longrightarrow> \<exists>w es. lookup d p = Some (Dir w es)"
proof -
  assume a: "lookup d (p @ q) = Some x" "q \<noteq> []"
  then obtain y where y: "lookup d p = Some y" "lookup y q = Some x"
    by (auto simp: lookup_append split: option.splits)
  with a(2) show ?thesis by (cases y; cases q) auto
qed

lemma lookup_modify_prefix:
  "lookup (modify_at (p @ r) f d) p = map_option (modify_at r f) (lookup d p)"
  "lookup_in (modify_in c (cs @ r) f es) c cs = map_option (modify_at r f) (lookup_in es c cs)"
  by (induction d p and es c cs rule: lookup_lookup_in.induct) auto

lemma lookup_modify_diverge:
  "\<not> prefix p q \<Longrightarrow> \<not> prefix q p \<Longrightarrow> lookup (modify_at p f d) q = lookup d q"
  "c0 \<noteq> c \<or> (\<not> prefix p cs \<and> \<not> prefix cs p) \<Longrightarrow>
     lookup_in (modify_in c0 p f es) c cs = lookup_in es c cs"
proof (induction d q and es c cs arbitrary: p and c0 p rule: lookup_lookup_in.induct)
  case (2 w es c cs)
  then show ?case by (cases p) auto
qed auto

lemma lookup_in_filter:
  "c \<noteq> n \<Longrightarrow> lookup_in (filter (\<lambda>e. fst e \<noteq> n) es) c cs = lookup_in es c cs"
  "lookup_in (filter (\<lambda>e. fst e \<noteq> n) es) n cs = None"
  by (induction es) auto

lemma modify_at_id:
  "(\<And>w es. lookup d p = Some (Dir w es) \<Longrightarrow> f es = es) \<Longrightarrow> modify_at p f d = d"
  "(\<And>w es'. lookup_in es c cs = Some (Dir w es') \<Longrightarrow> f es' = es') \<Longrightarrow> modify_in c cs f es = es"
proof (induction d p and es c cs rule: lookup_lookup_in.induct)
  case (1 n)
  then show ?case by (cases n) auto
qed auto

subsection \<open>Kinds\<close>

lemma look_Nil [simp]: "look d [] = Some (kind_of d)"
  by (simp add: look_def)

lemma kind_modify_at [simp]: "kind_of (modify_at p f x) = kind_of x"
  by (cases x; cases p) auto

lemma kind_eq_simps [simp]:
  "kind_of x = KFile c \<longleftrightarrow> x = File c"
  "kind_of x = KLink t \<longleftrightarrow> x = Link t"
  "kind_of x = KDir w \<longleftrightarrow> (\<exists>es. x = Dir w es)"
  by (cases x; auto)+

lemma look_simps:
  "look d p = Some (KFile c) \<longleftrightarrow> lookup d p = Some (File c)"
  "look d p = Some (KLink t) \<longleftrightarrow> lookup d p = Some (Link t)"
  "look d p = Some (KDir w) \<longleftrightarrow> (\<exists>es. lookup d p = Some (Dir w es))"
  "look d p = None \<longleftrightarrow> lookup d p = None"
  by (auto simp: look_def)

lemma below_refl [simp]: "below d d"
  by (simp add: below_def)

lemma below_trans: "below d'' d' \<Longrightarrow> below d' d \<Longrightarrow> below d'' d"
  unfolding below_def by metis

lemma belowD: "below d' d \<Longrightarrow> look d' p = Some k \<Longrightarrow> look d p = Some k"
  unfolding below_def by (metis option.distinct(1))

lemma below_None: "below d' d \<Longrightarrow> look d p = None \<Longrightarrow> look d' p = None"
  unfolding below_def by metis

subsection \<open>Unlinking an entry\<close>

lemma lookup_filter_Cons:
  "lookup (modify_at [] (filter (\<lambda>e. fst e \<noteq> n)) a) (c # r) =
     (if c = n then None else lookup a (c # r))"
  by (cases a) (auto simp: lookup_in_filter)

lemma lookup_unlink_under:
  assumes "prefix (p @ [n]) q"
  shows "lookup (unlink_entry p n d) q = None"
proof -
  from assms obtain r where q: "q = p @ n # r" by (auto simp: prefix_def)
  have "lookup (modify_at p f d) p = map_option (modify_at [] f) (lookup d p)" for f
    using lookup_modify_prefix(1) [of p "[]" f d] by simp
  then show ?thesis
    unfolding q unlink_entry_def
    by (cases "lookup d p")
       (auto simp: lookup_append(1) [of _ p] lookup_filter_Cons)
qed

lemma look_unlink_other:
  assumes "\<not> prefix (p @ [n]) q"
  shows "look (unlink_entry p n d) q = look d q"
proof (cases "prefix q p")
  case True
  then obtain r where "p = q @ r" by (auto simp: prefix_def)
  then show ?thesis
    by (simp add: look_def unlink_entry_def lookup_modify_prefix option.map_comp comp_def)
next
  case False
  show ?thesis
  proof (cases "prefix p q")
    case True
    with False assms obtain c r where q: "q = p @ c # r" and c: "c \<noteq> n"
      by (cases "drop (length p) q") (auto simp: prefix_def)
    have "lookup (modify_at p f d) p = map_option (modify_at [] f) (lookup d p)" for f
      using lookup_modify_prefix(1) [of p "[]" f d] by simp
    then have "lookup (unlink_entry p n d) q = lookup d q"
      unfolding q unlink_entry_def using c
      by (cases "lookup d p")
         (auto simp: lookup_append(1) [of _ p] lookup_filter_Cons)
    then show ?thesis by (simp add: look_def)
  next
    case np: False
    with False show ?thesis
      by (simp add: look_def unlink_entry_def lookup_modify_diverge)
  qed
qed

lemma lookup_unlink_apart:
  assumes "\<not> prefix (p @ [n]) q" "\<not> prefix q p"
  shows "lookup (unlink_entry p n d) q = lookup d q"
proof (cases "prefix p q")
  case True
  with assms obtain c r where q: "q = p @ c # r" and c: "c \<noteq> n"
    by (cases "drop (length p) q") (auto simp: prefix_def)
  have "lookup (modify_at p f d) p = map_option (modify_at [] f) (lookup d p)" for f
    using lookup_modify_prefix(1) [of p "[]" f d] by simp
  then show ?thesis
    unfolding q unlink_entry_def using c
    by (cases "lookup d p")
       (auto simp: lookup_append(1) [of _ p] lookup_filter_Cons)
next
  case False
  with assms show ?thesis
    by (simp add: unlink_entry_def lookup_modify_diverge)
qed

lemma look_unlink:
  "look (unlink_entry p n d) q = (if prefix (p @ [n]) q then None else look d q)"
  using look_unlink_other [of p n q d] lookup_unlink_under [of p n q d]
  by (auto simp: look_def)

lemma below_unlink: "below (unlink_entry p n d) d"
  by (simp add: below_def look_unlink)

subsection \<open>Path resolution\<close>

lemma resolve_look:
  "resolve k d cur (c # cs) =
     (case look d cur of
        None \<Rightarrow> Inl FileNotFoundError
      | Some (KDir w) \<Rightarrow>
          (case look d (cur @ [c]) of
             None \<Rightarrow> Inl FileNotFoundError
           | Some (KLink t) \<Rightarrow>
               (case k of 0 \<Rightarrow> Inl OSError | Suc k' \<Rightarrow> resolve k' d [] (t @ cs))
           | Some y \<Rightarrow> resolve k d (cur @ [c]) cs)
      | Some y \<Rightarrow> Inl NotADirectoryError)"
  by (auto simp: look_def split: option.splits node.splits kind.splits)

lemma resolve_below:
  "below d' d \<Longrightarrow>
   resolve k d' cur p = resolve k d cur p \<or> resolve k d' cur p = Inl FileNotFoundError"
proof (induction k d cur p rule: resolve.induct)
  case (1 k d cur)
  then show ?case by simp
next
  case (2 k d cur c cs)
  from "2.prems" have a: "look d' cur = None \<or> look d' cur = look d cur"
    and b: "look d' (cur @ [c]) = None \<or> look d' (cur @ [c]) = look d (cur @ [c])"
    by (auto simp: below_def)
  show ?case
  proof (cases "look d' cur = None \<or> look d' (cur @ [c]) = None")
    case True
    show ?thesis
    proof (cases "look d' cur")
      case None
      then show ?thesis by (simp add: resolve_look del: resolve.simps)
    next
      case (Some y)
      with a True have "look d cur = Some y" "look d' (cur @ [c]) = None" by auto
      with Some show ?thesis
        by (cases y) (simp_all add: resolve_look del: resolve.simps)
    qed
  next
    case False
    with a b have e: "look d' cur = look d cur" "look d' (cur @ [c]) = look d (cur @ [c])"
      by auto
    from False obtain y z where yz: "look d cur = Some y" "look d (cur @ [c]) = Some z"
      using e by auto
    then obtain w es where dir: "lookup d cur = Some (Dir w es) \<or> (\<forall>w. y \<noteq> KDir w)"
      by (cases y) (auto simp: look_simps)
    show ?thesis
    proof (cases y)
      case (KDir w)
      then obtain es where l1: "lookup d cur = Some (Dir w es)"
        using yz by (auto simp: look_simps)
      show ?thesis
      proof (cases z)
        case (KLink t)
        then have l2: "lookup d (cur @ [c]) = Some (Link t)"
          using yz by (auto simp: look_simps)
        show ?thesis
        proof (cases k)
          case 0
          then show ?thesis using yz e KDir KLink by (simp add: resolve_look del: resolve.simps)
        next
          case (Suc k')
          have "resolve k' d' [] (t @ cs) = resolve k' d [] (t @ cs) \<or>
                resolve k' d' [] (t @ cs) = Inl FileNotFoundError"
            using "2.IH"(3) [OF l1 refl l2 refl Suc "2.prems"] .
          then show ?thesis
            using yz e KDir KLink Suc by (simp add: resolve_look del: resolve.simps)
        qed
      next
        case (KFile x)
        then have l2: "lookup d (cur @ [c]) = Some (File x)"
          using yz by (auto simp: look_simps)
        have "resolve k d' (cur @ [c]) cs = resolve k d (cur @ [c]) cs \<or>
              resolve k d' (cur @ [c]) cs = Inl FileNotFoundError"
          using "2.IH"(1) [OF l1 refl l2 refl "2.prems"] .
        then show ?thesis
          using yz e KDir KFile by (simp add: resolve_look del: resolve.simps)
      next
        case (KDir w2)
        then obtain es2 where l2: "lookup d (cur @ [c]) = Some (Dir w2 es2)"
          using yz by (auto simp: look_simps)
        have "resolve k d' (cur @ [c]) cs = resolve k d (cur @ [c]) cs \<or>
              resolve k d' (cur @ [c]) cs = Inl FileNotFoundError"
          using "2.IH"(2) [OF l1 refl l2 refl "2.prems"] .
        then show ?thesis
          using yz e \<open>y = KDir w\<close> KDir by (simp add: resolve_look del: resolve.simps)
      qed
    qed (use yz e in \<open>simp_all add: resolve_look del: resolve.simps\<close>)
  qed
qed

lemma resolve_exists:
  "resolve k d cur p = Inr q \<Longrightarrow> lookup d cur \<noteq> None \<Longrightarrow> lookup d q \<noteq> None"
proof (induction k d cur p rule: resolve.induct)
  case (1 k d cur)
  then show ?case by simp
next
  case (2 k d cur c cs)
  then show ?case
    by (auto split: option.splits node.splits nat.splits)
qed

lemma resolve_physical:
  "lookup d (cur @ p) = Some x \<Longrightarrow> p = [] \<or> (\<forall>t. x \<noteq> Link t) \<Longrightarrow>
   resolve k d cur p = Inr (cur @ p)"
proof (induction p arbitrary: cur)
  case Nil
  then show ?case by simp
next
  case (Cons c cs)
  from Cons.prems(1) obtain w es where dir: "lookup d cur = Some (Dir w es)"
    using lookup_below_Dir [of d cur "c # cs" x] by auto
  have l: "lookup d ((cur @ [c]) @ cs) = Some x" using Cons.prems(1) by simp
  have "\<exists>y. lookup d (cur @ [c]) = Some y \<and> (\<forall>t. y \<noteq> Link t)"
  proof (cases "cs = []")
    case True
    with l Cons.prems(2) show ?thesis by auto
  next
    case False
    from lookup_below_Dir [OF l False] show ?thesis by auto
  qed
  then obtain y where y: "lookup d (cur @ [c]) = Some y" "\<forall>t. y \<noteq> Link t" by blast
  have "resolve k d (cur @ [c]) cs = Inr ((cur @ [c]) @ cs)"
    using Cons.IH [OF l] Cons.prems(2) by auto
  with dir y show ?case by (cases y) auto
qed


subsection \<open>The calls on a smaller tree\<close>

lemma stat_below:
  assumes "below d' d"
  shows "stat d' s = stat d s \<or> stat d' s = Inl FileNotFoundError"
proof -
  from resolve_below [OF assms, of MAXSYMLINKS "[]" "components s"]
  show ?thesis
  proof
    assume e: "resolve MAXSYMLINKS d' [] (components s) = resolve MAXSYMLINKS d [] (components s)"
    show ?thesis
    proof (cases "resolve MAXSYMLINKS d [] (components s)")
      case (Inl a)
      with e show ?thesis by (simp add: stat_def)
    next
      case (Inr p)
      show ?thesis
      proof (cases "lookup d' p")
        case None
        with e Inr show ?thesis by (simp add: stat_def)
      next
        case (Some x)
        then have "look d' p = Some (kind_of x)" by (simp add: look_def)
        from belowD [OF assms this] have "lookup d p \<noteq> None" by (auto simp: look_def)
        with e Inr Some show ?thesis by (auto simp: stat_def)
      qed
    qed
  qed (simp add: stat_def)
qed

lemma lstat_below:
  assumes "below d' d"
  shows "lstat d' s = lstat d s \<or> lstat d' s = Inl FileNotFoundError"
proof (cases "components s = []")
  case True
  then show ?thesis by (simp add: lstat_def)
next
  case False
  let ?cs = "components s"
  from resolve_below [OF assms, of MAXSYMLINKS "[]" "butlast ?cs"]
  show ?thesis
  proof
    assume e: "resolve MAXSYMLINKS d' [] (butlast ?cs) = resolve MAXSYMLINKS d [] (butlast ?cs)"
    show ?thesis
    proof (cases "resolve MAXSYMLINKS d [] (butlast ?cs)")
      case (Inl a)
      with e False show ?thesis by (simp add: lstat_def)
    next
      case (Inr p)
      from assms have a: "look d' p = None \<or> look d' p = look d p"
        and b: "look d' (p @ [last ?cs]) = None \<or> look d' (p @ [last ?cs]) = look d (p @ [last ?cs])"
        by (auto simp: below_def)
      have l: "lstat d s =
        (case look d p of
           Some (KDir w) \<Rightarrow>
             (case look d (p @ [last ?cs]) of None \<Rightarrow> Inl FileNotFoundError
              | Some x \<Rightarrow> Inr (p @ [last ?cs]))
         | Some x \<Rightarrow> Inl NotADirectoryError
         | None \<Rightarrow> Inl FileNotFoundError)"
        if "resolve MAXSYMLINKS d [] (butlast ?cs) = Inr p" for d
        using that False
        by (auto simp: lstat_def look_def split: option.splits node.splits kind.splits)
      from a show ?thesis
      proof
        assume "look d' p = None"
        then show ?thesis using l [of d'] e Inr by simp
      next
        assume a': "look d' p = look d p"
        from b show ?thesis
        proof
          assume "look d' (p @ [last ?cs]) = None"
          then show ?thesis using l [of d'] l [of d] e Inr a'
            by (auto split: option.splits kind.splits)
        next
          assume "look d' (p @ [last ?cs]) = look d (p @ [last ?cs])"
          then show ?thesis using l [of d'] l [of d] e Inr a'
            by (auto split: option.splits kind.splits)
        qed
      qed
    qed
  next
    assume "resolve MAXSYMLINKS d' [] (butlast ?cs) = Inl FileNotFoundError"
    with False show ?thesis by (simp add: lstat_def)
  qed
qed

lemma isfile_below:
  assumes "below d' d" "os_path_isfile d' s"
  shows "os_path_isfile d s"
proof -
  from assms(2) obtain p c where p: "stat d' s = Inr p" "lookup d' p = Some (File c)"
    by (auto simp: os_path_isfile_def split: sum.splits option.splits node.splits)
  with stat_below [OF assms(1), of s] have "stat d s = Inr p" by auto
  moreover from p(2) assms(1) have "lookup d p = Some (File c)"
    using belowD [of d' d p "KFile c"] by (simp add: look_simps)
  ultimately show ?thesis by (simp add: os_path_isfile_def)
qed

lemma isdir_below:
  assumes "below d' d" "os_path_isdir d' s"
  shows "os_path_isdir d s"
proof -
  from assms(2) obtain p w es where p: "stat d' s = Inr p" "lookup d' p = Some (Dir w es)"
    by (auto simp: os_path_isdir_def split: sum.splits option.splits node.splits)
  with stat_below [OF assms(1), of s] have "stat d s = Inr p" by auto
  moreover from p(2) assms(1) have "\<exists>es. lookup d p = Some (Dir w es)"
    using belowD [of d' d p "KDir w"] by (simp add: look_simps)
  ultimately show ?thesis by (auto simp: os_path_isdir_def)
qed

subsection \<open>What a successful \<^verbatim>\<open>os.remove\<close> did\<close>

lemma os_remove_Inr:
  assumes "os_remove s d = Inr d'"
  obtains p es y where
    "lstat d s = Inr (p @ [last (components s)])" "components s \<noteq> []"
    "lookup d p = Some (Dir True es)" "lookup d (p @ [last (components s)]) = Some y"
    "\<forall>w es'. y \<noteq> Dir w es'" "d' = unlink_entry p (last (components s)) d"
proof -
  from assms obtain q where q: "lstat d s = Inr q" "q \<noteq> []"
    by (auto simp: os_remove_def split: sum.splits if_splits)
  then have ne: "components s \<noteq> []"
    by (auto simp: lstat_def Let_def split: if_splits)
  with q obtain p where p: "q = p @ [last (components s)]"
    by (auto simp: lstat_def Let_def split: if_splits sum.splits option.splits node.splits)
  from assms q p obtain es y where
    "lookup d p = Some (Dir True es)" "lookup d (p @ [last (components s)]) = Some y"
    "\<forall>w es'. y \<noteq> Dir w es'" "d' = unlink_entry p (last (components s)) d"
    by (auto simp: os_remove_def lstat_def Let_def
        split: sum.splits if_splits option.splits node.splits)
  with q p ne show ?thesis using that by blast
qed

subsection \<open>The calls on link-free paths\<close>

lemma lstat_physical:
  assumes "components s = p @ [n]" "lookup d p = Some (Dir w es)"
  shows "lstat d s =
     (case lookup d (p @ [n]) of None \<Rightarrow> Inl FileNotFoundError | Some x \<Rightarrow> Inr (p @ [n]))"
proof -
  have "resolve MAXSYMLINKS d [] p = Inr p"
    using resolve_physical [of d "[]" p _ MAXSYMLINKS] assms(2) by simp
  with assms show ?thesis by (simp add: lstat_def Let_def split: option.splits)
qed

lemma os_remove_physical:
  assumes "components s = p @ [n]" "lookup d p = Some (Dir w es)"
  shows "os_remove s d =
     (case lookup d (p @ [n]) of
        None \<Rightarrow> Inl FileNotFoundError
      | Some y \<Rightarrow>
          if \<not> w then Inl PermissionError
          else (case y of Dir w' es' \<Rightarrow> Inl IsADirectoryError
                | _ \<Rightarrow> Inr (unlink_entry p n d)))"
  using assms lstat_physical [OF assms]
  by (auto simp: os_remove_def split: option.splits node.splits)

lemma stat_physical:
  "lookup d (components s) = Some x \<Longrightarrow> \<forall>t. x \<noteq> Link t \<Longrightarrow> stat d s = Inr (components s)"
  using resolve_physical [of d "[]" "components s" x MAXSYMLINKS]
  by (simp add: stat_def)



subsection \<open>Well-formed trees\<close>

lemma lookup_in_notin: "c \<notin> fst ` set es \<Longrightarrow> lookup_in es c cs = None"
  by (induction es) auto

lemma wf_lookup:
  "wf_node d \<Longrightarrow> lookup d p = Some x \<Longrightarrow> wf_node x"
  "wf_entries es \<Longrightarrow> lookup_in es c cs = Some x \<Longrightarrow> wf_node x"
  by (induction d p and es c cs rule: lookup_lookup_in.induct) (auto split: if_splits)

lemma wf_lookup_Dir: "wf_node d \<Longrightarrow> lookup d p = Some (Dir w es) \<Longrightarrow> wf_entries es"
  using wf_lookup(1) [of d p "Dir w es"] by simp

lemma names_modify_in [simp]: "map fst (modify_in c cs f es) = map fst es"
  by (induction es) auto

lemma wf_modify:
  "(\<forall>es. wf_entries es \<longrightarrow> wf_entries (f es)) \<Longrightarrow> wf_node d \<Longrightarrow> wf_node (modify_at p f d)"
  "(\<forall>es. wf_entries es \<longrightarrow> wf_entries (f es)) \<Longrightarrow> wf_entries es \<Longrightarrow>
     wf_entries (modify_in c p f es)"
proof (induction p f d and c p f es rule: modify_at_modify_in.induct)
  case (6 c cs f n x r)
  have "fst ` set (modify_in c cs f r) = fst ` set r"
    using names_modify_in [of c cs f r] by (metis set_map)
  with 6 show ?case by auto
qed auto

lemma wf_filter: "wf_entries es \<Longrightarrow> wf_entries (filter Q es)"
  by (induction es) auto

lemma wf_unlink: "wf_node d \<Longrightarrow> wf_node (unlink_entry p n d)"
  unfolding unlink_entry_def by (rule wf_modify) (simp_all add: wf_filter)

lemma names_rm_entries: "(a, b) \<in> set (rm_entries w es) \<Longrightarrow> a \<in> fst ` set es"
  by (induction w es rule: rm_entries.induct) (force simp: Let_def split: if_splits)+

lemma wf_rm_entries: "wf_entries es \<Longrightarrow> wf_entries (rm_entries w es)"
proof (induction w es rule: rm_entries.induct)
  case (2 w n w' es r)
  then show ?case using names_rm_entries [of n _ w r] by (auto simp: Let_def)
next
  case (3 w n c r)
  then show ?case using names_rm_entries [of n _ w r] by auto
next
  case (4 w n t r)
  then show ?case using names_rm_entries [of n _ w r] by auto
qed simp

lemma wf_valid_name:
  "wf_entries es \<Longrightarrow> lookup_in es c cs = Some x \<Longrightarrow> valid_name c"
  by (induction es) (auto split: if_splits)

subsection \<open>Counting\<close>

lemma filter_notin: "n \<notin> fst ` set r \<Longrightarrow> filter (\<lambda>e. fst e \<noteq> n) r = r"
  by (induction r) auto

lemma count_in_filter:
  assumes "wf_entries es" "lookup_in es n [] = Some y" "\<forall>w es'. y \<noteq> Dir w es'"
  shows "count_in P es = count_in P (filter (\<lambda>e. fst e \<noteq> n) es) + (if P n y then 1 else 0)"
  using assms
proof (induction P es rule: count_in.induct)
  case (2 P m w es r)
  from "2.prems"(2,3) have "m \<noteq> n" by (cases "m = n") fastforce+
  with 2 show ?case by auto
next
  case (3 P m c r)
  show ?case
  proof (cases "m = n")
    case True
    with "3.prems" show ?thesis by (auto simp: filter_notin)
  next
    case False
    with 3 show ?thesis by simp
  qed
next
  case (4 P m t r)
  show ?case
  proof (cases "m = n")
    case True
    with "4.prems" show ?thesis by (auto simp: filter_notin)
  next
    case False
    with 4 show ?thesis by simp
  qed
qed simp

lemma lookup_leaf [simp]:
  "q \<noteq> [] \<Longrightarrow> lookup (File c) q = None"
  "q \<noteq> [] \<Longrightarrow> lookup (Link t) q = None"
  by (cases q; simp)+

lemma count_modify:
  "(\<forall>es. wf_entries es \<longrightarrow> lookup_in es n [] = Some y \<longrightarrow> count_in P es = count_in P (f es) + k) \<Longrightarrow>
   wf_node d \<Longrightarrow> lookup d (p @ [n]) = Some y \<Longrightarrow>
   count_leaves P d = count_leaves P (modify_at p f d) + k"
  "(\<forall>es. wf_entries es \<longrightarrow> lookup_in es n [] = Some y \<longrightarrow> count_in P es = count_in P (f es) + k) \<Longrightarrow>
   wf_entries es \<Longrightarrow> lookup_in es c (p @ [n]) = Some y \<Longrightarrow>
   count_in P es = count_in P (modify_in c p f es) + k"
proof (induction p f d and c p f es rule: modify_at_modify_in.induct)
  case (1 f w es)
  then show ?case by (simp add: count_leaves_def)
next
  case (2 c cs f w es)
  then show ?case by (simp add: count_leaves_def)
next
  case (6 c cs f n' x r)
  show ?case
  proof (cases "n' = c")
    case True
    with 6 have l: "lookup x (cs @ [n]) = Some y" "wf_node x" by auto
    then obtain w es where x: "x = Dir w es" by (cases x; cases cs) auto
    from 6(1) [OF True 6(3) l(2) l(1)] x True show ?thesis
      by (cases cs) (auto simp: count_leaves_def)
  next
    case False
    with 6 show ?thesis by (cases x) auto
  qed
qed auto

lemma count_unlink:
  assumes "wf_node d" "lookup d (p @ [n]) = Some y" "\<forall>w es'. y \<noteq> Dir w es'"
  shows "count_leaves P d = count_leaves P (unlink_entry p n d) + (if P n y then 1 else 0)"
  unfolding unlink_entry_def
  by (rule count_modify(1) [OF _ assms(1,2)]) (use assms(3) count_in_filter in blast)

subsection \<open>Loops\<close>


lemma for_each_rel:
  assumes "\<forall>x s s'. body x s = Inr s' \<longrightarrow> R\<^sup>*\<^sup>* s s'"
    and "\<forall>x s e s'. body x s = Inl (e, s') \<longrightarrow> R\<^sup>*\<^sup>* s s'"
  shows "(for_each body xs s = Inr s' \<longrightarrow> R\<^sup>*\<^sup>* s s') \<and>
         (for_each body xs s = Inl (e, s') \<longrightarrow> R\<^sup>*\<^sup>* s s')"
proof (induction xs arbitrary: s)
  case Nil
  then show ?case by simp
next
  case (Cons x xs)
  show ?case
  proof (cases "body x s")
    case (Inl a)
    with assms(2) show ?thesis by (cases a) auto
  next
    case (Inr s1)
    with assms(1) have "R\<^sup>*\<^sup>* s s1" by blast
    with Cons.IH [of s1] Inr show ?thesis by (auto intro: rtranclp_trans)
  qed
qed

subsection \<open>The steps of a sweep\<close>

lemma matches_components:
  "endswith s EXTENSIONS_TO_CLEAN \<Longrightarrow> matches (last (components s))"
  using endswith_components [of s] by (simp add: matches_def)

lemma sweep_file_Inr:
  assumes "sweep_file root name s = Inr s'"
  shows "s' = s \<or> sweep_step s s'"
proof (cases "os_path_isfile (disk s) (os_path_join root name) \<and>
    endswith (os_path_join root name) EXTENSIONS_TO_CLEAN")
  case False
  with assms show ?thesis by (auto simp: sweep_file_def Let_def)
next
  case True
  with assms obtain d' where r: "os_remove (os_path_join root name) (disk s) = Inr d'"
    and s': "s' = s\<lparr>disk := d', removed_count := removed_count s + 1\<rparr>"
    by (auto simp: sweep_file_def Let_def split: sum.splits)
  let ?n = "last (components (os_path_join root name))"
  from os_remove_Inr [OF r] obtain p es y where y:
    "lookup (disk s) p = Some (Dir True es)"
    "lookup (disk s) (p @ [?n]) = Some y"
    "\<forall>w es'. y \<noteq> Dir w es'"
    "d' = unlink_entry p ?n (disk s)"
    by metis
  have m: "matches ?n" using True matches_components by blast
  have "sweep_step s s'"
    unfolding sweep_step_def
    by (intro exI [of _ p] exI [of _ ?n] exI [of _ y]) (use y m s' in \<open>simp add: look_simps\<close>)
  then show ?thesis ..
qed

lemma sweep_file_Inl: "sweep_file root name s = Inl (e, s') \<Longrightarrow> s' = s"
  by (auto simp: sweep_file_def Let_def split: if_splits sum.splits)

lemma sweep_files_steps:
  "(for_each (sweep_file root) files s = Inr s' \<longrightarrow> sweep_step\<^sup>*\<^sup>* s s') \<and>
   (for_each (sweep_file root) files s = Inl (e, s') \<longrightarrow> sweep_step\<^sup>*\<^sup>* s s')"
proof (rule for_each_rel)
  show "\<forall>x s s'. sweep_file root x s = Inr s' \<longrightarrow> sweep_step\<^sup>*\<^sup>* s s'"
    using sweep_file_Inr by blast
  show "\<forall>x s e s'. sweep_file root x s = Inl (e, s') \<longrightarrow> sweep_step\<^sup>*\<^sup>* s s'"
    using sweep_file_Inl by blast
qed

lemma sweep_triples_steps:
  "(for_each (\<lambda>(root, dirs, files). for_each (sweep_file root) files) ts s = Inr s'
      \<longrightarrow> sweep_step\<^sup>*\<^sup>* s s') \<and>
   (for_each (\<lambda>(root, dirs, files). for_each (sweep_file root) files) ts s = Inl (e, s')
      \<longrightarrow> sweep_step\<^sup>*\<^sup>* s s')"
proof (rule for_each_rel)
  show "\<forall>x s s'. (case x of (root, dirs, files) \<Rightarrow> for_each (sweep_file root) files) s = Inr s'
      \<longrightarrow> sweep_step\<^sup>*\<^sup>* s s'"
    using sweep_files_steps by (auto split: prod.splits)
  show "\<forall>x s e s'. (case x of (root, dirs, files) \<Rightarrow> for_each (sweep_file root) files) s = Inl (e, s')
      \<longrightarrow> sweep_step\<^sup>*\<^sup>* s s'"
    using sweep_files_steps by (auto split: prod.splits)
qed

lemma sweep_steps:
  "sweep subtree s = Inr s' \<Longrightarrow> sweep_step\<^sup>*\<^sup>* s s'"
  "sweep subtree s = Inl (e, s') \<Longrightarrow> sweep_step\<^sup>*\<^sup>* s s'"
  unfolding sweep_def using sweep_triples_steps by blast+

subsection \<open>What a sequence of deletions leaves\<close>


lemma sweep_step_below: "sweep_step\<^sup>*\<^sup>* s s' \<Longrightarrow> below (disk s') (disk s)"
proof (induction rule: rtranclp_induct)
  case base
  then show ?case by simp
next
  case (step y z)
  then have "below (disk z) (disk y)"
    by (auto simp: sweep_step_def below_unlink)
  from below_trans [OF this step.IH] show ?case .
qed

lemma sweep_step_wf: "sweep_step\<^sup>*\<^sup>* s s' \<Longrightarrow> wf_node (disk s) \<Longrightarrow> wf_node (disk s')"
  by (induction rule: rtranclp_induct) (auto simp: sweep_step_def wf_unlink)

lemma sweep_step_count:
  assumes "sweep_step\<^sup>*\<^sup>* s s'" "wf_node (disk s)" "\<And>n y. matches n \<Longrightarrow> \<forall>w es. y \<noteq> Dir w es \<Longrightarrow> P n y"
  shows "count_leaves P (disk s) + removed_count s = count_leaves P (disk s') + removed_count s'"
  using assms(1,2)
proof (induction rule: rtranclp_induct)
  case base
  then show ?case by simp
next
  case (step y z)
  from step(2) obtain p n x where x: "matches n" "lookup (disk y) (p @ [n]) = Some x"
    "\<forall>w es. x \<noteq> Dir w es" "disk z = unlink_entry p n (disk y)"
    "removed_count z = Suc (removed_count y)"
    by (auto simp: sweep_step_def)
  have "wf_node (disk y)" using step sweep_step_wf by blast
  from count_unlink [OF this x(2,3), of P] x assms(3) [OF x(1,3)]
  have "count_leaves P (disk y) + removed_count y = count_leaves P (disk z) + removed_count z"
    by simp
  with step show ?case by simp
qed

lemma sweep_step_count_others:
  assumes "sweep_step\<^sup>*\<^sup>* s s'" "wf_node (disk s)" "\<And>n y. matches n \<Longrightarrow> \<not> P n y"
  shows "count_leaves P (disk s') = count_leaves P (disk s)"
  using assms(1,2)
proof (induction rule: rtranclp_induct)
  case base
  then show ?case by simp
next
  case (step y z)
  from step(2) obtain p n x where x: "matches n" "lookup (disk y) (p @ [n]) = Some x"
    "\<forall>w es. x \<noteq> Dir w es" "disk z = unlink_entry p n (disk y)"
    by (auto simp: sweep_step_def)
  have "wf_node (disk y)" using step sweep_step_wf by blast
  from count_unlink [OF this x(2,3), of P] x assms(3) [OF x(1)]
  have "count_leaves P (disk y) = count_leaves P (disk z)"
    by simp
  with step show ?case by simp
qed

lemma lookup_under_leaf:
  assumes "lookup d a = Some y" "\<forall>w es. y \<noteq> Dir w es" "lookup d (a @ b) \<noteq> None"
  shows "b = []"
proof (rule ccontr)
  assume "b \<noteq> []"
  with assms(3) lookup_below_Dir [of d a b] assms(1,2) show False by auto
qed

lemma sweep_step_look:
  assumes "sweep_step\<^sup>*\<^sup>* s s'"
  shows "look (disk s') q = look (disk s) q \<or>
     (look (disk s') q = None \<and> q \<noteq> [] \<and> matches (last q) \<and>
      look (disk s) (butlast q) = Some (KDir True) \<and>
      ((\<exists>c. look (disk s) q = Some (KFile c)) \<or> (\<exists>t. look (disk s) q = Some (KLink t))))"
  using assms
proof (induction arbitrary: q rule: rtranclp_induct)
  case base
  then show ?case by simp
next
  case (step y z)
  from step(2) obtain p n x where x: "matches n" "look (disk y) p = Some (KDir True)"
    "lookup (disk y) (p @ [n]) = Some x"
    "\<forall>w es. x \<noteq> Dir w es" "disk z = unlink_entry p n (disk y)"
    by (auto simp: sweep_step_def)
  have lz: "look (disk z) q = (if prefix (p @ [n]) q then None else look (disk y) q)"
    by (simp add: x(5) look_unlink)
  show ?case
  proof (cases "prefix (p @ [n]) q \<and> look (disk y) q \<noteq> None")
    case False
    with lz step.IH [of q] show ?thesis by auto
  next
    case True
    then obtain b where b: "q = (p @ [n]) @ b" by (auto simp: prefix_def)
    with True lookup_under_leaf [OF x(3,4), of b] have q: "q = p @ [n]"
      by (auto simp: look_def)
    from step.IH [of q] True have 1: "look (disk y) q = look (disk s) q" by auto
    from step.IH [of p] x(2) have 2: "look (disk s) p = Some (KDir True)" by auto
    from x(3,4) q have "(\<exists>c. look (disk y) q = Some (KFile c)) \<or> (\<exists>t. look (disk y) q = Some (KLink t))"
      by (cases x) (auto simp: look_def)
    with 1 2 q lz x(1) show ?thesis by auto
  qed
qed

subsection \<open>Resolution of a longer path\<close>

lemma resolve_append_Inl:
  "resolve k d cur cs = Inl e \<Longrightarrow> resolve k d cur (cs @ r) = Inl e"
proof (induction k d cur cs rule: resolve.induct)
  case (1 k d cur)
  then show ?case by simp
next
  case (2 k d cur c cs)
  then show ?case
    by (auto split: option.splits node.splits nat.splits)
qed

lemma resolve_append_Inr:
  "resolve k d cur cs = Inr p \<Longrightarrow> \<exists>k'. resolve k d cur (cs @ r) = resolve k' d p r"
proof (induction k d cur cs rule: resolve.induct)
  case (1 k d cur)
  then show ?case by auto
next
  case (2 k d cur c cs)
  then show ?case
    by (auto split: option.splits node.splits nat.splits)
qed

lemma resolve_absent:
  "lookup d (p @ [n]) = None \<Longrightarrow> \<exists>e. resolve k d p [n] = Inl e"
  by (auto split: option.splits node.splits)

lemma lstat_parent:
  assumes "lstat d s = Inr q" "components s \<noteq> []"
  obtains p where "q = p @ [last (components s)]"
    "resolve MAXSYMLINKS d [] (butlast (components s)) = Inr p"
  using assms
  by (auto simp: lstat_def Let_def split: sum.splits option.splits node.splits)

lemma stat_after_remove:
  assumes "os_remove s d = Inr d'"
  shows "\<exists>e. stat d' s = Inl e"
proof -
  let ?cs = "components s"
  from os_remove_Inr [OF assms] obtain p es y where r:
    "lstat d s = Inr (p @ [last ?cs])" "?cs \<noteq> []" "d' = unlink_entry p (last ?cs) d"
    by metis
  from lstat_parent [OF r(1,2)] have rp: "resolve MAXSYMLINKS d [] (butlast ?cs) = Inr p"
    by auto
  have gone: "lookup d' (p @ [last ?cs]) = None"
    unfolding r(3) by (rule lookup_unlink_under) simp
  have b: "below d' d" unfolding r(3) by (rule below_unlink)
  have cs: "?cs = butlast ?cs @ [last ?cs]" using r(2) by simp
  have "\<exists>e. resolve MAXSYMLINKS d' [] (butlast ?cs @ [last ?cs]) = Inl e"
  proof (cases "resolve MAXSYMLINKS d' [] (butlast ?cs)")
    case (Inl e)
    from resolve_append_Inl [OF this] show ?thesis by blast
  next
    case (Inr p')
    with resolve_below [OF b, of MAXSYMLINKS "[]" "butlast ?cs"] rp have "p' = p" by auto
    with resolve_append_Inr [OF Inr, of "[last ?cs]"] resolve_absent [OF gone]
    show ?thesis by metis
  qed
  with cs show ?thesis by (auto simp: stat_def)
qed

lemma isfile_after_remove:
  "os_remove s d = Inr d' \<Longrightarrow> \<not> os_path_isfile d' s"
  using stat_after_remove [of s d d'] by (auto simp: os_path_isfile_def)

subsection \<open>A completed sweep leaves nothing to delete\<close>

lemma for_each_post:
  assumes step: "\<forall>x s s'. body x s = Inr s' \<longrightarrow> P x s'"
    and stable: "\<forall>x y s s'. P x s \<longrightarrow> body y s = Inr s' \<longrightarrow> P x s'"
  shows "for_each body xs s = Inr s' \<Longrightarrow> (\<forall>x. P x s \<longrightarrow> P x s') \<and> (\<forall>x \<in> set xs. P x s')"
proof (induction xs arbitrary: s)
  case Nil
  then show ?case by simp
next
  case (Cons x xs)
  then obtain s1 where b: "body x s = Inr s1" and r: "for_each body xs s1 = Inr s'"
    by (auto split: sum.splits)
  from step b have "P x s1" by blast
  with Cons.IH [OF r] stable b show ?case by auto
qed

lemma todo_steps: "sweep_step\<^sup>*\<^sup>* s s' \<Longrightarrow> todo s' path \<Longrightarrow> todo s path"
  using isfile_below [OF sweep_step_below] by (auto simp: todo_def)

lemma sweep_file_done:
  assumes "sweep_file root name s = Inr s'"
  shows "\<not> todo s' (os_path_join root name)"
  using assms isfile_after_remove [of "os_path_join root name" "disk s"]
  by (auto simp: sweep_file_def Let_def todo_def split: if_splits sum.splits)

lemma sweep_files_done:
  assumes "for_each (sweep_file root) files s = Inr s'"
  shows "\<forall>n \<in> set files. \<not> todo s' (os_path_join root n)"
proof -
  have "(\<forall>x. \<not> todo s (os_path_join root x) \<longrightarrow> \<not> todo s' (os_path_join root x)) \<and>
        (\<forall>x \<in> set files. \<not> todo s' (os_path_join root x))"
  proof (rule for_each_post [OF _ _ assms])
    show "\<forall>x s s'. sweep_file root x s = Inr s' \<longrightarrow> \<not> todo s' (os_path_join root x)"
      using sweep_file_done by blast
    show "\<forall>x y s s'. \<not> todo s (os_path_join root x) \<longrightarrow> sweep_file root y s = Inr s' \<longrightarrow>
        \<not> todo s' (os_path_join root x)"
      using sweep_file_Inr todo_steps by blast
  qed
  then show ?thesis by blast
qed

lemma sweep_body_eq:
  "(\<lambda>(root, dirs, files). for_each (sweep_file root) files) = sweep_body"
  by (auto simp: sweep_body_def fun_eq_iff)

lemma sweep_done:
  assumes "sweep subtree s = Inr s'"
  shows "\<forall>t \<in> set (os_walk (disk s) subtree). triple_done t s'"
proof -
  have 1: "\<forall>x s s'. sweep_body x s = Inr s' \<longrightarrow> triple_done x s'"
    using sweep_files_done by (auto simp: sweep_body_def triple_done_def)
  have 2: "\<forall>x y s s'. triple_done x s \<longrightarrow> sweep_body y s = Inr s' \<longrightarrow> triple_done x s'"
  proof (intro allI impI)
    fix x y s s'
    assume p: "triple_done x s" and b: "sweep_body y s = Inr s'"
    from b have "sweep_step\<^sup>*\<^sup>* s s'"
      using sweep_files_steps by (auto simp: sweep_body_def)
    with p todo_steps show "triple_done x s'" by (auto simp: triple_done_def)
  qed
  have 3: "for_each sweep_body (os_walk (disk s) subtree) s = Inr s'"
    using assms by (simp add: sweep_def sweep_body_eq)
  from for_each_post [of sweep_body triple_done, OF 1 2 3] show ?thesis by blast
qed

subsection \<open>What \<^verbatim>\<open>os.walk\<close> enumerates\<close>

lemma lookup_in_mem: "lookup_in es n [] = Some x \<Longrightarrow> (n, x) \<in> set es"
  by (induction es) (auto split: if_splits)

lemma lookup_in_split:
  "lookup_in es c cs = (case lookup_in es c [] of None \<Rightarrow> None | Some y \<Rightarrow> lookup y cs)"
  by (induction es) auto

lemma wf_entries_mem:
  "wf_entries es \<Longrightarrow> (n, x) \<in> set es \<Longrightarrow> valid_name n \<and> wf_node x \<and> lookup_in es n [] = Some x"
  by (induction es) (fastforce simp: image_iff)+

lemma walk_subdirs_mem:
  "(c, Dir w es') \<in> set es \<Longrightarrow>
   set (walk_dir d (os_path_join dirpath c) es') \<subseteq> set (walk_subdirs d dirpath es)"
proof (induction es)
  case Nil
  then show ?case by simp
next
  case (Cons e es)
  obtain n x where e: "e = (n, x)" by (cases e)
  show ?case
  proof (cases "e = (c, Dir w es')")
    case True
    then show ?thesis by auto
  next
    case False
    with Cons e show ?thesis by (cases x) auto
  qed
qed

lemma components_join_valid:
  "valid_name n \<Longrightarrow> components (os_path_join a n) = components a @ [n]"
  by (simp add: valid_name_def components_join_name)

lemma walk_dir_covers:
  assumes "wf_entries es" "lookup (Dir w es) (rel @ [n]) = Some x"
  shows "\<exists>dp ds fs. (dp, ds, fs) \<in> set (walk_dir d dirpath es) \<and>
           components dp = components dirpath @ rel \<and>
           (\<not> is_dir_entry d dp (n, x) \<longrightarrow> n \<in> set fs)"
  using assms
proof (induction rel arbitrary: dirpath es w)
  case Nil
  then have "(n, x) \<in> set es" by (simp add: lookup_in_mem)
  then have "\<not> is_dir_entry d dirpath (n, x) \<longrightarrow>
      n \<in> set (map fst (filter (\<lambda>e. \<not> is_dir_entry d dirpath e) es))"
    by force
  then show ?case
    by (intro exI [of _ dirpath] exI [of _ "map fst (filter (is_dir_entry d dirpath) es)"]
          exI [of _ "map fst (filter (\<lambda>e. \<not> is_dir_entry d dirpath e) es)"]) simp
next
  case (Cons c rel)
  from Cons.prems(2) obtain y where y: "lookup_in es c [] = Some y" "lookup y (rel @ [n]) = Some x"
    using lookup_in_split [of es c "rel @ [n]"] by (auto split: option.splits)
  then obtain w' es' where d: "y = Dir w' es'" by (cases y) auto
  from y(1) have mem: "(c, y) \<in> set es" by (rule lookup_in_mem)
  from wf_entries_mem [OF Cons.prems(1) mem] d have v: "valid_name c" "wf_entries es'" by auto
  from Cons.IH [OF v(2), of w' "os_path_join dirpath c"] y(2) d
  obtain dp ds fs where t: "(dp, ds, fs) \<in> set (walk_dir d (os_path_join dirpath c) es')"
    "components dp = components (os_path_join dirpath c) @ rel"
    "\<not> is_dir_entry d dp (n, x) \<longrightarrow> n \<in> set fs"
    by blast
  from t(1) walk_subdirs_mem [of c w' es' es d dirpath] mem d
  have "(dp, ds, fs) \<in> set (walk_dir d dirpath es)" by auto
  with t(2,3) v(1) show ?case
    by (intro exI [of _ dp] exI [of _ ds] exI [of _ fs]) (simp add: components_join_valid)
qed

lemma walk_sound:
  "wf_entries es \<Longrightarrow> (dp, ds, fs) \<in> set (walk_dir d dirpath es) \<Longrightarrow>
     \<exists>rel w' es'. components dp = components dirpath @ rel \<and>
        lookup (Dir w es) rel = Some (Dir w' es') \<and> set fs \<subseteq> fst ` set es'"
  "wf_entries es \<Longrightarrow> (dp, ds, fs) \<in> set (walk_subdirs d dirpath es) \<Longrightarrow>
     \<exists>c rel w' es'. components dp = components dirpath @ c # rel \<and>
        lookup_in es c rel = Some (Dir w' es') \<and> set fs \<subseteq> fst ` set es'"
proof (induction d dirpath es and d dirpath es arbitrary: w rule: walk_dir_walk_subdirs.induct)
  case (1 d dirpath es)
  from "1.prems"(2) have "(dp, ds, fs) = (dirpath, map fst (filter (is_dir_entry d dirpath) es),
      map fst (filter (\<lambda>e. \<not> is_dir_entry d dirpath e) es)) \<or>
      (dp, ds, fs) \<in> set (walk_subdirs d dirpath es)"
    by simp
  then show ?case
  proof
    assume "(dp, ds, fs) = (dirpath, map fst (filter (is_dir_entry d dirpath) es),
      map fst (filter (\<lambda>e. \<not> is_dir_entry d dirpath e) es))"
    then show ?thesis by (intro exI [of _ "[]"]) auto
  next
    assume "(dp, ds, fs) \<in> set (walk_subdirs d dirpath es)"
    from "1.IH" [OF "1.prems"(1) this] obtain c rel w' es' where
      "components dp = components dirpath @ c # rel"
      "lookup_in es c rel = Some (Dir w' es')" "set fs \<subseteq> fst ` set es'"
      by blast
    then show ?thesis by (intro exI [of _ "c # rel"]) auto
  qed
next
  case (2 d dirpath)
  then show ?case by simp
next
  case (3 d dirpath n w' es r)
  from "3.prems"(2) have "(dp, ds, fs) \<in> set (walk_dir d (os_path_join dirpath n) es) \<or>
      (dp, ds, fs) \<in> set (walk_subdirs d dirpath r)"
    by auto
  then show ?case
  proof
    assume a: "(dp, ds, fs) \<in> set (walk_dir d (os_path_join dirpath n) es)"
    from "3.prems"(1) have wf: "wf_entries es" "valid_name n" by auto
    from "3.IH"(1) [OF wf(1) a, of w'] obtain rel w'' es'' where
      "components dp = components (os_path_join dirpath n) @ rel"
      "lookup (Dir w' es) rel = Some (Dir w'' es'')" "set fs \<subseteq> fst ` set es''"
      by blast
    with wf(2) show ?thesis
      by (intro exI [of _ n] exI [of _ rel] exI [of _ w''] exI [of _ es''])
         (simp add: components_join_valid)
  next
    assume a: "(dp, ds, fs) \<in> set (walk_subdirs d dirpath r)"
    from "3.prems"(1) have wf: "wf_entries r" "n \<notin> fst ` set r" by auto
    from "3.IH"(2) [OF wf(1) a] obtain c rel w'' es'' where c:
      "components dp = components dirpath @ c # rel"
      "lookup_in r c rel = Some (Dir w'' es'')" "set fs \<subseteq> fst ` set es''"
      by blast
    from c(2) wf(2) have "c \<noteq> n" using lookup_in_notin [of c r rel] by auto
    with c show ?thesis
      by (intro exI [of _ c] exI [of _ rel] exI [of _ w''] exI [of _ es'']) simp
  qed
next
  case (4 d dirpath n c r)
  from "4.prems" have wf: "wf_entries r" "n \<notin> fst ` set r"
    and a: "(dp, ds, fs) \<in> set (walk_subdirs d dirpath r)" by auto
  from "4.IH" [OF wf(1) a] obtain c' rel w'' es'' where c:
    "components dp = components dirpath @ c' # rel"
    "lookup_in r c' rel = Some (Dir w'' es'')" "set fs \<subseteq> fst ` set es''"
    by blast
  from c(2) wf(2) have "c' \<noteq> n" using lookup_in_notin [of c' r rel] by auto
  with c show ?case
    by (intro exI [of _ c'] exI [of _ rel] exI [of _ w''] exI [of _ es'']) simp
next
  case (5 d dirpath n t r)
  from "5.prems" have wf: "wf_entries r" "n \<notin> fst ` set r"
    and a: "(dp, ds, fs) \<in> set (walk_subdirs d dirpath r)" by auto
  from "5.IH" [OF wf(1) a] obtain c' rel w'' es'' where c:
    "components dp = components dirpath @ c' # rel"
    "lookup_in r c' rel = Some (Dir w'' es'')" "set fs \<subseteq> fst ` set es''"
    by blast
  from c(2) wf(2) have "c' \<noteq> n" using lookup_in_notin [of c' r rel] by auto
  with c show ?case
    by (intro exI [of _ c'] exI [of _ rel] exI [of _ w''] exI [of _ es'']) simp
qed

subsection \<open>Sweeping a subtree whose root is a real directory\<close>


lemma endswith_join_valid:
  assumes "valid_name n"
  shows "endswith (os_path_join a n) EXTENSIONS_TO_CLEAN \<longleftrightarrow> matches n"
proof (cases "a = []")
  case True
  with assms show ?thesis by (cases n) (auto simp: os_path_join_def matches_def valid_name_def)
next
  case False
  with assms endswith_join [of n a] show ?thesis by (simp add: matches_def valid_name_def)
qed

lemma os_walk_physical:
  "lookup d (components subtree) = Some (Dir w es) \<Longrightarrow> os_walk d subtree = walk_dir d subtree es"
  using stat_physical [of d subtree "Dir w es"] by (simp add: os_walk_def)

lemma stat_absent:
  assumes "lookup d a = Some (Dir w es)" "lookup d (a @ [n]) = None" "components s = a @ [n]"
  shows "\<exists>e. stat d s = Inl e"
proof -
  have "resolve MAXSYMLINKS d [] a = Inr a"
    using resolve_physical [of d "[]" a "Dir w es"] assms(1) by simp
  from resolve_append_Inr [OF this, of "[n]"] obtain k' where
    "resolve MAXSYMLINKS d [] (a @ [n]) = resolve k' d a [n]" by blast
  moreover from resolve_absent [OF assms(2), of k'] obtain e where "resolve k' d a [n] = Inl e"
    by blast
  ultimately show ?thesis using assms(3) by (simp add: stat_def del: resolve.simps)
qed

lemma os_walk_not_dir:
  assumes "components subtree = a @ [n]" "lookup d a = Some (Dir w es)"
    "\<forall>w es. lookup d (a @ [n]) \<noteq> Some (Dir w es)" "\<forall>t. lookup d (a @ [n]) \<noteq> Some (Link t)"
  shows "os_walk d subtree = []"
proof (cases "lookup d (a @ [n])")
  case None
  from stat_absent [OF assms(2) None assms(1)] show ?thesis by (auto simp: os_walk_def)
next
  case (Some x)
  with assms(3,4) obtain c where x: "x = File c" by (cases x) auto
  with Some assms(1) stat_physical [of d subtree "File c"] show ?thesis
    by (simp add: os_walk_def)
qed

lemma sweep_steps_Dir:
  assumes "sweep_step\<^sup>*\<^sup>* s s'" "look (disk s) q = Some (KDir w)"
  shows "look (disk s') q = Some (KDir w)"
  using sweep_step_look [OF assms(1), of q] assms(2) by auto



lemma components_subtrees:
  "components (root_dir @ ''/nautilus_trader/'') = components root_dir @ [''nautilus_trader'']"
  "components (root_dir @ ''/examples/'') = components root_dir @ [''examples'']"
proof -
  have "components ''nautilus_trader/'' = [''nautilus_trader'']" by (simp add: components_def)
  with components_slash [of root_dir "''nautilus_trader/''"]
  show "components (root_dir @ ''/nautilus_trader/'') = components root_dir @ [''nautilus_trader'']"
    by simp
  have "components ''examples/'' = [''examples'']" by (simp add: components_def)
  with components_slash [of root_dir "''examples/''"]
  show "components (root_dir @ ''/examples/'') = components root_dir @ [''examples'']"
    by simp
qed


lemma isfile_not_isdir: "os_path_isfile d s \<Longrightarrow> \<not> os_path_isdir d s"
  by (auto simp: os_path_isfile_def os_path_isdir_def split: sum.splits option.splits node.splits)

lemma sweep_removes:
  assumes wf: "wf_node (disk s)" and run: "sweep subtree s = Inr s'"
    and x: "lookup (disk s) (components subtree @ rel @ [n]) = Some x"
    and m: "matches n"
    and nd: "\<And>path. components path = components subtree @ rel @ [n] \<Longrightarrow>
               \<not> os_path_isdir (disk s) path"
    and f: "\<And>path. components path = components subtree @ rel @ [n] \<Longrightarrow>
               lookup (disk s') (components subtree @ rel @ [n]) = Some x \<Longrightarrow>
               os_path_isfile (disk s') path"
  shows "lookup (disk s') (components subtree @ rel @ [n]) = None"
proof -
  let ?A = "components subtree"
  let ?p = "?A @ rel @ [n]"
  from lookup_below_Dir [of "disk s" ?A "rel @ [n]" x] x
  obtain wA esA where A: "lookup (disk s) ?A = Some (Dir wA esA)" by auto
  have walk: "os_walk (disk s) subtree = walk_dir (disk s) subtree esA"
    using os_walk_physical [OF A] .
  have wfA: "wf_entries esA" using wf_lookup_Dir [OF wf A] .
  have lx: "lookup (Dir wA esA) (rel @ [n]) = Some x"
    using x A lookup_append(1) [of "disk s" ?A "rel @ [n]"] by simp
  from walk_dir_covers [OF wfA lx, of "disk s" subtree] obtain dp ds fs where t:
    "(dp, ds, fs) \<in> set (walk_dir (disk s) subtree esA)" "components dp = ?A @ rel"
    "\<not> is_dir_entry (disk s) dp (n, x) \<longrightarrow> n \<in> set fs"
    by blast
  from lookup_below_Dir [of "disk s" "?A @ rel" "[n]" x] x
  obtain w' es' where par: "lookup (disk s) (?A @ rel) = Some (Dir w' es')" by auto
  have "lookup_in es' n [] = Some x"
    using x par lookup_snoc [of "disk s" "?A @ rel" n] by simp
  from wf_valid_name [OF wf_lookup_Dir [OF wf par] this] have v: "valid_name n" .
  let ?path = "os_path_join dp n"
  have cs: "components ?path = ?p" using t(2) v by (simp add: components_join_valid)
  have notdir: "\<forall>w es. x \<noteq> Dir w es"
  proof (intro allI notI)
    fix w es assume "x = Dir w es"
    with x cs stat_physical [of "disk s" ?path x] have "os_path_isdir (disk s) ?path"
      by (simp add: os_path_isdir_def)
    with nd [OF cs] show False by simp
  qed
  have "\<not> is_dir_entry (disk s) dp (n, x)"
    using notdir nd [OF cs] by (cases x) (auto simp: is_dir_entry_def)
  with t(3) have mem: "n \<in> set fs" by simp
  from sweep_done [OF run] walk t(1) have "triple_done (dp, ds, fs) s'" by auto
  with mem have "\<not> todo s' ?path" by (auto simp: triple_done_def)
  with m v have nf: "\<not> os_path_isfile (disk s') ?path"
    by (simp add: todo_def endswith_join_valid)
  from sweep_step_look [OF sweep_steps(1) [OF run], of ?p]
  have "look (disk s') ?p = look (disk s) ?p \<or> look (disk s') ?p = None" by auto
  then show ?thesis
  proof
    assume "look (disk s') ?p = look (disk s) ?p"
    with x have "look (disk s') ?p = Some (kind_of x)" by (simp add: look_def)
    with notdir have "lookup (disk s') ?p = Some x"
      by (cases x) (auto simp: look_simps)
    from f [OF cs this] nf show ?thesis by simp
  qed (simp add: look_def)
qed

lemma extension_sweep_runs:
  assumes "extension_sweep root_dir s = Inr s'"
  obtains s1 where "sweep (root_dir @ ''/nautilus_trader/'') (s\<lparr>removed_count := 0\<rparr>) = Inr s1"
    "sweep (root_dir @ ''/examples/'') s1 = Inr s'"
  using assms by (auto simp: extension_sweep_def split: sum.splits)

lemma extension_sweep_steps:
  assumes "extension_sweep root_dir s = Inr s' \<or> extension_sweep root_dir s = Inl (e, s')"
  shows "sweep_step\<^sup>*\<^sup>* (s\<lparr>removed_count := 0\<rparr>) s'"
proof -
  let ?s0 = "s\<lparr>removed_count := 0\<rparr>"
  show ?thesis
  proof (cases "sweep (root_dir @ ''/nautilus_trader/'') ?s0")
    case (Inl a)
    with assms have "sweep (root_dir @ ''/nautilus_trader/'') ?s0 = Inl (e, s')"
      by (auto simp: extension_sweep_def)
    then show ?thesis by (rule sweep_steps(2))
  next
    case (Inr s1)
    then have 1: "sweep_step\<^sup>*\<^sup>* ?s0 s1" by (rule sweep_steps(1))
    from Inr assms have "sweep (root_dir @ ''/examples/'') s1 = Inr s' \<or>
        sweep (root_dir @ ''/examples/'') s1 = Inl (e, s')"
      by (auto simp: extension_sweep_def)
    then have "sweep_step\<^sup>*\<^sup>* s1 s'" using sweep_steps by blast
    with 1 show ?thesis by (rule rtranclp_trans)
  qed
qed




subsection \<open>The file phase\<close>

lemma FILES_valid: "n \<in> FILES_TO_CLEAN \<Longrightarrow> valid_name n"
  by (auto simp: FILES_TO_CLEAN_def valid_name_def)

lemma lstat_exists:
  "lstat d s = Inr q \<Longrightarrow> lookup d q \<noteq> None"
  by (auto simp: lstat_def Let_def split: if_splits sum.splits option.splits node.splits)

lemma lstat_after_remove:
  assumes "os_remove s d = Inr d'"
  shows "lstat d' s = Inl FileNotFoundError"
proof -
  from os_remove_Inr [OF assms] obtain p where r:
    "lstat d s = Inr (p @ [last (components s)])" "d' = unlink_entry p (last (components s)) d"
    by metis
  have "lookup d' (p @ [last (components s)]) = None"
    unfolding r(2) by (rule lookup_unlink_under) simp
  with lstat_exists [of d' s "p @ [last (components s)]"]
  have "lstat d' s \<noteq> Inr (p @ [last (components s)])" by auto
  with lstat_below [of d' d s] r(1) below_unlink [of p "last (components s)" d] r(2)
  show ?thesis by auto
qed

lemma os_remove_FileNotFound:
  "os_remove s d = Inl FileNotFoundError \<Longrightarrow> lstat d s = Inl FileNotFoundError"
  by (auto simp: os_remove_def split: sum.splits if_splits option.splits node.splits)

lemma os_remove_below:
  "os_remove s d = Inr d' \<Longrightarrow> below d' d \<and> (wf_node d \<longrightarrow> wf_node d')"
  using os_remove_Inr [of s d d'] below_unlink wf_unlink by metis

lemma remove_file_Inr:
  assumes "remove_file root_dir target s = Inr s'"
  shows "below (disk s') (disk s)" "wf_node (disk s) \<Longrightarrow> wf_node (disk s')"
    "lstat (disk s') (os_path_join root_dir target) = Inl FileNotFoundError"
    "removed_count s' = removed_count s"
proof -
  let ?path = "os_path_join root_dir target"
  from assms have c: "(os_remove ?path (disk s) = Inl FileNotFoundError \<and> s' = s) \<or>
      (\<exists>d'. os_remove ?path (disk s) = Inr d' \<and> disk s' = d' \<and> removed_count s' = removed_count s)"
    by (auto simp: remove_file_def split: sum.splits exn.splits)
  from c show "below (disk s') (disk s)" using os_remove_below by auto
  from c show "wf_node (disk s) \<Longrightarrow> wf_node (disk s')" using os_remove_below by auto
  from c show "lstat (disk s') ?path = Inl FileNotFoundError"
    using os_remove_FileNotFound lstat_after_remove by auto
  from c show "removed_count s' = removed_count s" by auto
qed

lemma remove_file_Inl:
  "remove_file root_dir target s = Inl (e, s') \<Longrightarrow>
     s' = s \<and> e \<noteq> FileNotFoundError \<and> os_remove (os_path_join root_dir target) (disk s) = Inl e"
  by (auto simp: remove_file_def split: sum.splits exn.splits)

lemma lstat_gone_below:
  "below d' d \<Longrightarrow> lstat d s = Inl FileNotFoundError \<Longrightarrow> lstat d' s = Inl FileNotFoundError"
  using lstat_below [of d' d s] by auto

lemma file_phase_done:
  assumes "file_phase forder root_dir s = Inr s'"
  shows "\<forall>n \<in> set forder. lstat (disk s') (os_path_join root_dir n) = Inl FileNotFoundError"
proof -
  have 1: "\<forall>x s s'. remove_file root_dir x s = Inr s' \<longrightarrow> gone root_dir x s'"
    using remove_file_Inr(3) by (simp add: gone_def)
  have 2: "\<forall>x y s s'. gone root_dir x s \<longrightarrow> remove_file root_dir y s = Inr s' \<longrightarrow> gone root_dir x s'"
    using remove_file_Inr(1) lstat_gone_below unfolding gone_def by blast
  from for_each_post [of "remove_file root_dir" "gone root_dir", OF 1 2] assms
  show ?thesis by (simp add: file_phase_def gone_def)
qed

lemma file_phase_Inl:
  "file_phase forder root_dir s = Inl (e, s') \<Longrightarrow> e \<noteq> FileNotFoundError"
  unfolding file_phase_def
proof (induction forder arbitrary: s)
  case Nil
  then show ?case by simp
next
  case (Cons x xs)
  show ?case
  proof (cases "remove_file root_dir x s")
    case (Inl a)
    with Cons.prems remove_file_Inl [of root_dir x s e s'] show ?thesis by auto
  next
    case (Inr s1)
    with Cons show ?thesis by auto
  qed
qed

lemma file_phase_below:
  "file_phase forder root_dir s = Inr s' \<Longrightarrow>
     below (disk s') (disk s) \<and> (wf_node (disk s) \<longrightarrow> wf_node (disk s')) \<and>
     removed_count s' = removed_count s"
  unfolding file_phase_def
proof (induction forder arbitrary: s)
  case Nil
  then show ?case by simp
next
  case (Cons x xs)
  then obtain s1 where b: "remove_file root_dir x s = Inr s1"
    and r: "for_each (remove_file root_dir) xs s1 = Inr s'"
    by (auto split: sum.splits)
  from Cons.IH [OF r] remove_file_Inr [OF b] show ?case
    by (auto intro: below_trans)
qed

text \<open>A project root that is a real directory without write permission.\<close>

lemma file_phase_readonly:
  assumes "lookup (disk s) (components root_dir) = Some (Dir False es)"
    "\<forall>n \<in> set xs. valid_name n"
  shows "for_each (remove_file root_dir) xs s =
     (if \<exists>n \<in> set xs. lookup (disk s) (components root_dir @ [n]) \<noteq> None
      then Inl (PermissionError, s) else Inr s)"
  using assms(2)
proof (induction xs)
  case Nil
  then show ?case by simp
next
  case (Cons x xs)
  then have v: "valid_name x" by simp
  have cs: "components (os_path_join root_dir x) = components root_dir @ [x]"
    using v by (rule components_join_valid)
  from os_remove_physical [OF cs assms(1)]
  have "remove_file root_dir x s =
      (if lookup (disk s) (components root_dir @ [x]) \<noteq> None then Inl (PermissionError, s) else Inr s)"
    by (auto simp: remove_file_def split: option.splits)
  with Cons show ?case by auto
qed

subsection \<open>\<^verbatim>\<open>shutil.rmtree\<close>\<close>

lemma look_modify_other:
  assumes "\<not> prefix p q"
  shows "look (modify_at p f d) q = look d q"
proof (cases "prefix q p")
  case True
  then obtain r where "p = q @ r" by (auto simp: prefix_def)
  then show ?thesis
    by (simp add: look_def lookup_modify_prefix option.map_comp comp_def)
next
  case False
  with assms show ?thesis by (simp add: look_def lookup_modify_diverge)
qed

lemma lookup_modify_at_same:
  "lookup (modify_at p f d) p = map_option (modify_at [] f) (lookup d p)"
  using lookup_modify_prefix(1) [of p "[]" f d] by simp

lemma rm_entries_kind:
  "wf_entries es \<Longrightarrow>
   lookup_in (rm_entries w es) c cs = None \<or>
   map_option kind_of (lookup_in (rm_entries w es) c cs) = map_option kind_of (lookup_in es c cs)"
proof (induction w es arbitrary: c cs rule: rm_entries.induct)
  case (1 w)
  then show ?case by simp
next
  case (2 w n w' es r)
  have nr: "lookup_in (rm_entries w r) n cs = None"
  proof -
    have "n \<notin> fst ` set (rm_entries w r)" using "2.prems" names_rm_entries [of n _ w r] by auto
    then show ?thesis by (rule lookup_in_notin)
  qed
  show ?case
  proof (cases "c = n")
    case True
    show ?thesis
    proof (cases cs)
      case Nil
      with True nr show ?thesis by (auto simp: Let_def)
    next
      case (Cons c' cs')
      have "wf_entries es" using "2.prems" by simp
      then have
        "lookup_in (rm_entries w' es) c' cs' = None \<or>
         map_option kind_of (lookup_in (rm_entries w' es) c' cs') = map_option kind_of (lookup_in es c' cs')"
        by (rule "2.IH"(1))
      with True Cons nr show ?thesis by (auto simp: Let_def)
    qed
  next
    case False
    have "wf_entries r" using "2.prems" by simp
    then have "lookup_in (rm_entries w r) c cs = None \<or>
        map_option kind_of (lookup_in (rm_entries w r) c cs) = map_option kind_of (lookup_in r c cs)"
      by (rule "2.IH"(2) [OF refl])
    with False show ?thesis by (auto simp: Let_def)
  qed
next
  case (3 w n x r)
  have nr: "lookup_in (rm_entries w r) n cs = None"
  proof -
    have "n \<notin> fst ` set (rm_entries w r)" using "3.prems" names_rm_entries [of n _ w r] by auto
    then show ?thesis by (rule lookup_in_notin)
  qed
  have "wf_entries r" using "3.prems" by simp
  then have "lookup_in (rm_entries w r) c cs = None \<or>
      map_option kind_of (lookup_in (rm_entries w r) c cs) = map_option kind_of (lookup_in r c cs)"
    by (rule "3.IH")
  with nr show ?case by auto
next
  case (4 w n t r)
  have nr: "lookup_in (rm_entries w r) n cs = None"
  proof -
    have "n \<notin> fst ` set (rm_entries w r)" using "4.prems" names_rm_entries [of n _ w r] by auto
    then show ?thesis by (rule lookup_in_notin)
  qed
  have "wf_entries r" using "4.prems" by simp
  then have "lookup_in (rm_entries w r) c cs = None \<or>
      map_option kind_of (lookup_in (rm_entries w r) c cs) = map_option kind_of (lookup_in r c cs)"
    by (rule "4.IH")
  with nr show ?case by auto
qed

lemma below_modify_rm:
  assumes wf: "wf_node d" and dir: "lookup d p = Some (Dir w es)"
  shows "below (modify_at p (rm_entries w) d) d"
  unfolding below_def
proof
  fix q
  let ?d' = "modify_at p (rm_entries w) d"
  show "look ?d' q = None \<or> look ?d' q = look d q"
  proof (cases "prefix p q")
    case False
    then show ?thesis by (simp add: look_modify_other)
  next
    case True
    then obtain r where q: "q = p @ r" by (auto simp: prefix_def)
    have wfes: "wf_entries es" using wf_lookup_Dir [OF wf dir] .
    have l': "lookup ?d' q = lookup (Dir w (rm_entries w es)) r"
      using dir by (simp add: q lookup_append(1) [of _ p] lookup_modify_at_same)
    have l: "lookup d q = lookup (Dir w es) r"
      using dir by (simp add: q lookup_append(1) [of _ p])
    show ?thesis
    proof (cases r)
      case Nil
      with l l' show ?thesis by (simp add: look_def)
    next
      case (Cons c cs)
      with l l' rm_entries_kind [OF wfes, of w c cs] show ?thesis by (simp add: look_def)
    qed
  qed
qed

lemma os_rmdir_ignore_cases:
  "os_rmdir_ignore p d = d \<or>
   (p \<noteq> [] \<and> os_rmdir_ignore p d = unlink_entry (butlast p) (last p) d)"
  by (auto simp: os_rmdir_ignore_def split: option.splits node.splits list.splits)

lemma rmtree_cases:
  "shutil_rmtree_ignore_errors s d = d \<or>
   (\<exists>p w es. lstat d s = Inr p \<and> lookup d p = Some (Dir w es) \<and>
      shutil_rmtree_ignore_errors s d = os_rmdir_ignore p (modify_at p (rm_entries w) d))"
  by (auto simp: shutil_rmtree_ignore_errors_def split: sum.splits option.splits node.splits)

lemma rmtree_wf:
  assumes "wf_node d"
  shows "wf_node (shutil_rmtree_ignore_errors s d)"
proof -
  have "wf_node (os_rmdir_ignore p (modify_at p (rm_entries w) d))" for p w
    using os_rmdir_ignore_cases [of p "modify_at p (rm_entries w) d"]
      wf_modify(1) [of "rm_entries w" d p] wf_rm_entries assms wf_unlink
    by auto
  with rmtree_cases [of s d] assms show ?thesis by auto
qed

lemma rmtree_below:
  assumes "wf_node d"
  shows "below (shutil_rmtree_ignore_errors s d) d"
proof -
  have "below (os_rmdir_ignore p (modify_at p (rm_entries w) d)) d"
    if "lookup d p = Some (Dir w es)" for p w es
  proof -
    let ?d1 = "modify_at p (rm_entries w) d"
    have 1: "below ?d1 d" using below_modify_rm [OF assms that] .
    from os_rmdir_ignore_cases [of p ?d1] have "below (os_rmdir_ignore p ?d1) ?d1"
      using below_unlink by auto
    from below_trans [OF this 1] show ?thesis .
  qed
  with rmtree_cases [of s d] show ?thesis by auto
qed

lemma rmtree_frame:
  assumes "lstat d s = Inr p" "\<not> prefix p q"
  shows "look (shutil_rmtree_ignore_errors s d) q = look d q"
proof -
  have "look (os_rmdir_ignore p (modify_at p (rm_entries w) d)) q = look d q" for w
  proof -
    let ?d1 = "modify_at p (rm_entries w) d"
    have 1: "look ?d1 q = look d q" using assms(2) by (rule look_modify_other)
    from os_rmdir_ignore_cases [of p ?d1] show ?thesis
    proof
      assume "p \<noteq> [] \<and> os_rmdir_ignore p ?d1 = unlink_entry (butlast p) (last p) ?d1"
      with assms(2) 1 show ?thesis by (simp add: look_unlink)
    qed (simp add: 1)
  qed
  with rmtree_cases [of s d] assms(1) show ?thesis by auto
qed

lemma rmtree_not_dir:
  "\<forall>p w es. lstat d s = Inr p \<longrightarrow> lookup d p \<noteq> Some (Dir w es) \<Longrightarrow>
   shutil_rmtree_ignore_errors s d = d"
  using rmtree_cases [of s d] by auto

lemma rmtree_lstat_fails:
  "lstat d s = Inl e \<Longrightarrow> shutil_rmtree_ignore_errors s d = d"
  by (simp add: shutil_rmtree_ignore_errors_def)




subsection \<open>The directory phase\<close>

lemma remove_dir_disk:
  "remove_dir root_dir target s = Inr s' \<longleftrightarrow>
     s' = s\<lparr>disk := shutil_rmtree_ignore_errors (os_path_join root_dir target) (disk s),
            stdout := stdout s @ [''Removing dir: '' @ target]\<rparr>"
  by (auto simp: remove_dir_def)

lemma dir_phase_total: "\<exists>s'. dir_phase dorder root_dir s = Inr s'"
  unfolding dir_phase_def
  by (induction dorder arbitrary: s) (auto simp: remove_dir_def)

lemma dir_phase_below:
  "dir_phase dorder root_dir s = Inr s' \<Longrightarrow> wf_node (disk s) \<Longrightarrow>
     below (disk s') (disk s) \<and> wf_node (disk s') \<and> removed_count s' = removed_count s"
  unfolding dir_phase_def
proof (induction dorder arbitrary: s)
  case Nil
  then show ?case by simp
next
  case (Cons x xs)
  from Cons.prems(1) obtain s1 where s1: "remove_dir root_dir x s = Inr s1"
    and r: "for_each (remove_dir root_dir) xs s1 = Inr s'"
    by (auto split: sum.splits)
  from s1 have d1: "disk s1 = shutil_rmtree_ignore_errors (os_path_join root_dir x) (disk s)"
    "removed_count s1 = removed_count s"
    by (auto simp: remove_dir_def)
  have b: "below (disk s1) (disk s)" using rmtree_below [OF Cons.prems(2)] d1 by simp
  have w: "wf_node (disk s1)" using rmtree_wf [OF Cons.prems(2)] d1 by simp
  from Cons.IH [OF r w] b d1 show ?case by (auto intro: below_trans)
qed

lemma DIRS_components:
  "name \<in> DIRS_TO_CLEAN \<Longrightarrow>
     (name \<noteq> [] \<longrightarrow> hd name \<noteq> CHR ''/'') \<and>
     ((valid_name name \<and> components name = [name] \<and> name \<noteq> ''docs'') \<or>
      (name = ''docs/build'' \<and> components name = [''docs'', ''build'']))"
  by (auto simp: DIRS_TO_CLEAN_def valid_name_def components_def)

lemma resolve_physical_file:
  assumes "lookup d a = Some (File c)" "components s = a @ [n]"
  shows "lstat d s = Inl NotADirectoryError"
proof -
  have "resolve MAXSYMLINKS d [] a = Inr a"
    using resolve_physical [of d "[]" a "File c"] assms by simp
  with assms show ?thesis by (simp add: lstat_def)
qed

lemma lstat_parent_absent:
  assumes "lookup d r = Some (Dir w es)" "lookup d (r @ [c]) = None" "components s = r @ [c, n]"
  shows "\<exists>e. lstat d s = Inl e"
proof -
  have "resolve MAXSYMLINKS d [] r = Inr r"
    using resolve_physical [of d "[]" r "Dir w es"] assms(1) by simp
  from resolve_append_Inr [OF this, of "[c]"] obtain k' where
    "resolve MAXSYMLINKS d [] (r @ [c]) = resolve k' d r [c]" by blast
  moreover from resolve_absent [OF assms(2), of k'] obtain e where "resolve k' d r [c] = Inl e"
    by blast
  ultimately show ?thesis using assms(3)
    by (simp add: lstat_def Let_def butlast_append del: resolve.simps)
qed

text \<open>
  Where \<^verbatim>\<open>rmtree\<close> on \<^verbatim>\<open>root/name\<close> can change the tree, when the root is a real directory
  and \<^verbatim>\<open>root/docs\<close> is no symbolic link.
\<close>

lemma rmtree_region:
  assumes root: "lookup d (components root_dir) = Some (Dir w es)"
    and docs: "\<forall>t. lookup d (components root_dir @ [''docs'']) \<noteq> Some (Link t)"
    and name: "name \<in> DIRS_TO_CLEAN"
    and q: "\<not> prefix (components root_dir @ components name) q"
  shows "look (shutil_rmtree_ignore_errors (os_path_join root_dir name) d) q = look d q"
proof -
  let ?R = "components root_dir"
  let ?path = "os_path_join root_dir name"
  from DIRS_components [OF name] have cs: "components ?path = ?R @ components name"
    using components_join [of name root_dir] by auto
  have "(\<exists>e. lstat d ?path = Inl e) \<or> lstat d ?path = Inr (?R @ components name)"
  proof (cases "name = ''docs/build''")
    case False
    with DIRS_components [OF name] have c1: "components name = [name]" by auto
    from lstat_physical [OF _ root, of ?path name] cs c1 show ?thesis
      by (auto split: option.splits)
  next
    case True
    with DIRS_components [OF name] have c2: "components name = [''docs'', ''build'']"
      by (auto simp: valid_name_def)
    with cs have cs2: "components ?path = ?R @ [''docs'', ''build'']" by simp
    show ?thesis
    proof (cases "lookup d (?R @ [''docs''])")
      case None
      from lstat_parent_absent [OF root None cs2] show ?thesis by blast
    next
      case (Some y)
      show ?thesis
      proof (cases y)
        case (File c)
        from resolve_physical_file [of d "?R @ [''docs'']" c ?path "''build''"] Some File cs2
        show ?thesis by simp
      next
        case (Dir w' es')
        from lstat_physical [of ?path "?R @ [''docs'']" "''build''" d w' es'] Some Dir cs2 c2
        show ?thesis by (auto split: option.splits)
      next
        case (Link t)
        with Some docs show ?thesis by simp
      qed
    qed
  qed
  then show ?thesis
  proof
    assume "\<exists>e. lstat d ?path = Inl e"
    then show ?thesis using rmtree_lstat_fails by auto
  next
    assume "lstat d ?path = Inr (?R @ components name)"
    from rmtree_frame [OF this q] show ?thesis .
  qed
qed

lemma dir_phase_frame_aux:
  assumes "set xs \<subseteq> DIRS_TO_CLEAN"
    and "lookup (disk s) (components root_dir) = Some (Dir w es)"
    and "\<forall>t. lookup (disk s) (components root_dir @ [''docs'']) \<noteq> Some (Link t)"
    and "for_each (remove_dir root_dir) xs s = Inr s'"
  shows "\<forall>q. (\<forall>name \<in> DIRS_TO_CLEAN. \<not> prefix (components root_dir @ components name) q) \<longrightarrow>
           look (disk s') q = look (disk s) q"
  using assms
proof (induction xs arbitrary: s es)
  case Nil
  then show ?case by simp
next
  case (Cons x xs)
  let ?R = "components root_dir"
  let ?d1 = "shutil_rmtree_ignore_errors (os_path_join root_dir x) (disk s)"
  from Cons.prems(4) obtain s1 where s1: "remove_dir root_dir x s = Inr s1"
    and r: "for_each (remove_dir root_dir) xs s1 = Inr s'"
    by (auto split: sum.splits)
  from s1 have d1: "disk s1 = ?d1" by (auto simp: remove_dir_def)
  have x: "x \<in> DIRS_TO_CLEAN" using Cons.prems(1) by simp
  have fr: "look ?d1 q = look (disk s) q" if "\<not> prefix (?R @ components x) q" for q
    using rmtree_region [OF Cons.prems(2,3) x that] .
  have ne: "components n \<noteq> [] \<and> \<not> prefix (?R @ components n) ?R \<and>
      \<not> prefix (?R @ components n) (?R @ [''docs''])" if "n \<in> DIRS_TO_CLEAN" for n
    using DIRS_components [OF that] by auto
  have "look ?d1 ?R = look (disk s) ?R" using fr ne [OF x] by simp
  with Cons.prems(2) d1 obtain es1 where root1: "lookup (disk s1) ?R = Some (Dir w es1)"
    by (auto simp: look_def)
  have "look ?d1 (?R @ [''docs'']) = look (disk s) (?R @ [''docs''])" using fr ne [OF x] by simp
  then have "look (disk s1) (?R @ [''docs'']) \<noteq> Some (KLink t)" for t
    using Cons.prems(3) d1 by (simp add: look_simps)
  then have docs1: "\<forall>t. lookup (disk s1) (?R @ [''docs'']) \<noteq> Some (Link t)"
    by (simp add: look_simps)
  from Cons.IH [OF _ root1 docs1 r] Cons.prems(1)
  have "\<forall>q. (\<forall>name \<in> DIRS_TO_CLEAN. \<not> prefix (?R @ components name) q) \<longrightarrow>
           look (disk s') q = look (disk s1) q" by simp
  with fr x d1 show ?case by auto
qed

subsection \<open>A listed file name that is a directory\<close>

lemma file_phase_hits_dir:
  assumes "\<forall>n \<in> set xs. valid_name n" "name \<in> set xs"
    "look (disk s) (components root_dir) = Some (KDir w)"
    "lookup (disk s) (components root_dir @ [name]) = Some (Dir w' es')"
  shows "\<exists>e s'. for_each (remove_file root_dir) xs s = Inl (e, s') \<and>
           (e = IsADirectoryError \<or> e = PermissionError) \<and>
           lookup (disk s') (components root_dir @ [name]) = Some (Dir w' es')"
  using assms
proof (induction xs arbitrary: s)
  case Nil
  then show ?case by simp
next
  case (Cons x xs)
  let ?R = "components root_dir"
  from Cons.prems(3) obtain es where root: "lookup (disk s) ?R = Some (Dir w es)"
    by (auto simp: look_simps)
  have cs: "components (os_path_join root_dir x) = ?R @ [x]"
    using Cons.prems(1) by (simp add: components_join_valid)
  note rm = os_remove_physical [OF cs root]
  show ?case
  proof (cases "remove_file root_dir x s")
    case (Inl a)
    obtain e s0 where a: "a = (e, s0)" by (cases a)
    from Inl a remove_file_Inl [of root_dir x s e s0] have s0: "s0 = s"
      and e: "os_remove (os_path_join root_dir x) (disk s) = Inl e" "e \<noteq> FileNotFoundError"
      by auto
    from e rm have "e = IsADirectoryError \<or> e = PermissionError"
      by (auto split: option.splits if_splits node.splits)
    with Inl a s0 Cons.prems(4) show ?thesis by auto
  next
    case (Inr s1)
    have xn: "x \<noteq> name"
    proof
      assume "x = name"
      with rm Cons.prems(4) have "\<exists>e. os_remove (os_path_join root_dir x) (disk s) = Inl e \<and>
          e \<noteq> FileNotFoundError" by auto
      with Inr show False by (auto simp: remove_file_def split: exn.splits)
    qed
    from Inr have "disk s1 = disk s \<or> disk s1 = unlink_entry ?R x (disk s)"
      using rm by (auto simp: remove_file_def split: sum.splits exn.splits option.splits
          if_splits node.splits)
    then have keep: "look (disk s1) ?R = Some (KDir w) \<and>
        lookup (disk s1) (?R @ [name]) = Some (Dir w' es')"
    proof
      assume "disk s1 = disk s"
      with Cons.prems(3,4) show ?thesis by simp
    next
      assume u: "disk s1 = unlink_entry ?R x (disk s)"
      have "lookup (disk s1) (?R @ [name]) = lookup (disk s) (?R @ [name])"
        unfolding u by (rule lookup_unlink_apart) (use xn in auto)
      moreover have "look (disk s1) ?R = look (disk s) ?R"
        unfolding u by (rule look_unlink_other) simp
      ultimately show ?thesis using Cons.prems(3,4) by simp
    qed
    from Cons.prems(1,2) xn have "\<forall>n \<in> set xs. valid_name n" "name \<in> set xs" by auto
    from Cons.IH [OF this] keep Inr show ?thesis by simp
  qed
qed

subsection \<open>The phases of a run\<close>

lemma cleanup_Inr:
  assumes "cleanup forder dorder root_dir d = Inr s'"
  obtains s1 s2 s3 where
    "file_phase forder root_dir \<lparr>disk = d, stdout = [''root_dir='' @ root_dir], removed_count = 0\<rparr> = Inr s1"
    "dir_phase dorder root_dir s1 = Inr s2" "extension_sweep root_dir s2 = Inr s3"
    "s' = s3\<lparr>stdout := stdout s3 @ [summary_line (removed_count s3)]\<rparr>"
  using assms by (auto simp: cleanup_def split: sum.splits)


lemma extension_sweep_below:
  "extension_sweep root_dir s = Inr s' \<Longrightarrow> below (disk s') (disk s)"
  using sweep_step_below [OF extension_sweep_steps [of root_dir s s']] by simp


subsection \<open>A sweep that fails\<close>






subsection \<open>The lines a run prints\<close>





section \<open>A second run\<close>

subsection \<open>Loops that change nothing\<close>

lemma for_each_id: "\<forall>x \<in> set xs. body x s = Inr s \<Longrightarrow> for_each body xs s = Inr s"
  by (induction xs) simp_all

lemma file_phase_noop:
  assumes "\<forall>n \<in> set xs. lstat (disk s) (os_path_join root_dir n) = Inl FileNotFoundError"
  shows "file_phase xs root_dir s = Inr s"
  unfolding file_phase_def
proof (rule for_each_id, rule ballI)
  fix n assume "n \<in> set xs"
  with assms have "lstat (disk s) (os_path_join root_dir n) = Inl FileNotFoundError" by simp
  then show "remove_file root_dir n s = Inr s" by (simp add: remove_file_def os_remove_def)
qed

lemma dir_phase_noop:
  "\<forall>n \<in> set xs. shutil_rmtree_ignore_errors (os_path_join root_dir n) (disk s) = disk s \<Longrightarrow>
   dir_phase xs root_dir s =
     Inr (s\<lparr>stdout := stdout s @ map (\<lambda>n. ''Removing dir: '' @ n) xs\<rparr>)"
  unfolding dir_phase_def
proof (induction xs arbitrary: s)
  case Nil
  then show ?case by simp
next
  case (Cons x xs)
  let ?s1 = "s\<lparr>stdout := stdout s @ [''Removing dir: '' @ x]\<rparr>"
  from Cons.prems have 1: "remove_dir root_dir x s = Inr ?s1" by (simp add: remove_dir_def)
  from Cons.prems have
    "\<forall>n \<in> set xs. shutil_rmtree_ignore_errors (os_path_join root_dir n) (disk ?s1) = disk ?s1"
    by simp
  from Cons.IH [OF this] 1 show ?case by simp
qed

lemma sweep_file_noop: "\<not> todo s (os_path_join root name) \<Longrightarrow> sweep_file root name s = Inr s"
  by (auto simp: sweep_file_def todo_def Let_def)

lemma sweep_noop:
  assumes "\<forall>t \<in> set (os_walk (disk s) subtree). triple_done t s"
  shows "sweep subtree s = Inr s"
  unfolding sweep_def
proof (rule for_each_id, rule ballI)
  fix t assume t: "t \<in> set (os_walk (disk s) subtree)"
  obtain root dirs files where e: "t = (root, dirs, files)" by (cases t)
  from assms t e have "\<forall>n \<in> set files. \<not> todo s (os_path_join root n)"
    by (auto simp: triple_done_def)
  then have "for_each (sweep_file root) files s = Inr s"
    by (intro for_each_id ballI sweep_file_noop) simp
  with e show "(case t of (root, dirs, files) \<Rightarrow> for_each (sweep_file root) files) s = Inr s"
    by simp
qed

subsection \<open>Nothing is left for a second sweep\<close>

lemma isfile_components:
  "components s = components s' \<Longrightarrow> os_path_isfile d s = os_path_isfile d s'"
  by (simp add: os_path_isfile_def stat_def)

lemma walk_done_after:
  assumes wf: "wf_node (disk s)" and run: "sweep subtree s = Inr s'"
    and b: "below D (disk s')" and wfD: "wf_node D"
    and top: "lookup D (components subtree) = Some (Dir w es)"
    and t: "(dp, ds, fs) \<in> set (os_walk D subtree)" and f: "f \<in> set fs"
  shows "\<not> (os_path_isfile D (os_path_join dp f) \<and>
            endswith (os_path_join dp f) EXTENSIONS_TO_CLEAN)"
proof
  let ?A = "components subtree"
  let ?path = "os_path_join dp f"
  assume a: "os_path_isfile D ?path \<and> endswith ?path EXTENSIONS_TO_CLEAN"
  from os_walk_physical [OF top] t have t': "(dp, ds, fs) \<in> set (walk_dir D subtree es)" by simp
  have wfes: "wf_entries es" using wf_lookup_Dir [OF wfD top] .
  from walk_sound(1) [OF wfes t', of w] obtain rel w' es' where r:
    "components dp = ?A @ rel" "lookup (Dir w es) rel = Some (Dir w' es')"
    "set fs \<subseteq> fst ` set es'" by blast
  have par: "lookup D (?A @ rel) = Some (Dir w' es')"
    using r(2) top lookup_append(1) [of D ?A rel] by simp
  from f r(3) obtain x where mem: "(f, x) \<in> set es'" by auto
  have wfes': "wf_entries es'" using wf_lookup_Dir [OF wfD par] .
  from wf_entries_mem [OF wfes' mem] have v: "valid_name f" and lx: "lookup_in es' f [] = Some x"
    by simp_all
  let ?p = "?A @ rel @ [f]"
  have px: "lookup D ?p = Some x" using par lx lookup_snoc [of D "?A @ rel" f] by simp
  have cs: "components ?path = ?p" using r(1) v by (simp add: components_join_valid)
  have m: "matches f" using a v by (simp add: endswith_join_valid)
  have nd: "\<forall>w es. x \<noteq> Dir w es"
  proof (intro allI notI)
    fix w2 es2 assume "x = Dir w2 es2"
    with px cs stat_physical [of D ?path x] have "os_path_isdir D ?path"
      by (simp add: os_path_isdir_def)
    with a isfile_not_isdir show False by blast
  qed
  have bs: "below (disk s') (disk s)" using sweep_step_below [OF sweep_steps(1) [OF run]] .
  from px have "look D ?p = Some (kind_of x)" by (simp add: look_def)
  from belowD [OF bs belowD [OF b this]] have "look (disk s) ?p = Some (kind_of x)" .
  with nd have xs: "lookup (disk s) ?p = Some x" by (cases x) (auto simp: look_simps)
  have isf: "os_path_isfile D path" if "components path = ?p" for path
    using a isfile_components [of path ?path D] that cs by simp
  have "lookup (disk s') ?p = None"
  proof (rule sweep_removes [OF wf run xs m])
    fix path assume c: "components path = ?A @ rel @ [f]"
    from isfile_below [OF bs isfile_below [OF b isf [OF c]]]
    show "\<not> os_path_isdir (disk s) path" by (rule isfile_not_isdir)
    from isfile_below [OF b isf [OF c]] show "os_path_isfile (disk s') path" .
  qed
  then have "look (disk s') ?p = None" by (simp add: look_def)
  from below_None [OF b this] px show False by (simp add: look_def)
qed

lemma sweep_again:
  assumes wf: "wf_node (disk s)" and run: "sweep subtree s = Inr s'"
    and b: "below (disk t) (disk s')" and wfD: "wf_node (disk t)"
    and cs: "components subtree = a @ [n]"
    and par: "lookup (disk t) a = Some (Dir wa esa)"
    and nl: "\<forall>l. lookup (disk t) (a @ [n]) \<noteq> Some (Link l)"
  shows "sweep subtree t = Inr t"
proof (cases "\<exists>w es. lookup (disk t) (a @ [n]) = Some (Dir w es)")
  case True
  then obtain w es where top: "lookup (disk t) (components subtree) = Some (Dir w es)"
    using cs by auto
  show ?thesis
  proof (rule sweep_noop, rule ballI)
    fix tr assume tr: "tr \<in> set (os_walk (disk t) subtree)"
    obtain dp ds fs where e: "tr = (dp, ds, fs)" by (cases tr)
    from walk_done_after [OF wf run b wfD top] tr e
    have "\<forall>f \<in> set fs. \<not> todo t (os_path_join dp f)" by (auto simp: todo_def)
    with e show "triple_done tr t" by (simp add: triple_done_def)
  qed
next
  case False
  with os_walk_not_dir [OF cs par _ nl] have "os_walk (disk t) subtree = []" by simp
  then show ?thesis by (simp add: sweep_def)
qed

subsection \<open>Directories outlive the file phase\<close>

lemma os_remove_Dir:
  assumes "os_remove s d = Inr d'" "look d q = Some (KDir w)"
  shows "look d' q = Some (KDir w)"
proof -
  from os_remove_Inr [OF assms(1)] obtain p es y where r:
    "lookup d (p @ [last (components s)]) = Some y" "\<forall>w es'. y \<noteq> Dir w es'"
    "d' = unlink_entry p (last (components s)) d" by metis
  let ?e = "p @ [last (components s)]"
  have "\<not> prefix ?e q"
  proof
    assume "prefix ?e q"
    then obtain r' where q: "q = ?e @ r'" by (auto simp: prefix_def)
    from assms(2) obtain es' where "lookup d q = Some (Dir w es')" by (auto simp: look_simps)
    with r(1) q lookup_append(1) [of d ?e r'] have "lookup y r' = Some (Dir w es')" by simp
    with r(2) show False by (cases y; cases r') auto
  qed
  with assms(2) show ?thesis unfolding r(3) by (simp add: look_unlink)
qed

lemma file_phase_Dir:
  "file_phase forder root_dir s = Inr s' \<Longrightarrow> look (disk s) q = Some (KDir w) \<Longrightarrow>
   look (disk s') q = Some (KDir w)"
  unfolding file_phase_def
proof (induction forder arbitrary: s)
  case Nil
  then show ?case by simp
next
  case (Cons x xs)
  from Cons.prems(1) obtain s1 where s1: "remove_file root_dir x s = Inr s1"
    "for_each (remove_file root_dir) xs s1 = Inr s'" by (auto split: sum.splits)
  have "look (disk s1) q = Some (KDir w)"
  proof (cases "os_remove (os_path_join root_dir x) (disk s)")
    case (Inl e)
    with s1(1) have "s1 = s" by (cases e) (simp_all add: remove_file_def)
    with Cons.prems(2) show ?thesis by simp
  next
    case (Inr d')
    with s1(1) have "disk s1 = d'" by (auto simp: remove_file_def)
    with os_remove_Dir [OF Inr Cons.prems(2)] show ?thesis by simp
  qed
  from Cons.IH [OF s1(2) this] show ?case .
qed

subsection \<open>The listed files after a run\<close>

lemma cleanup_gone:
  assumes wf: "wf_node d" and run: "cleanup forder dorder root_dir d = Inr s'"
  shows "\<forall>name \<in> set forder.
           lstat (disk s') (os_path_join root_dir name) = Inl FileNotFoundError"
proof
  let ?s0 = "\<lparr>disk = d, stdout = [''root_dir='' @ root_dir], removed_count = 0\<rparr>"
  fix name assume n: "name \<in> set forder"
  from cleanup_Inr [OF run] obtain s1 s2 s3 where p:
    "file_phase forder root_dir ?s0 = Inr s1" "dir_phase dorder root_dir s1 = Inr s2"
    "extension_sweep root_dir s2 = Inr s3"
    "s' = s3\<lparr>stdout := stdout s3 @ [summary_line (removed_count s3)]\<rparr>" by blast
  have wf1: "wf_node (disk s1)" using file_phase_below [OF p(1)] wf by simp
  have b2: "below (disk s2) (disk s1)" using dir_phase_below [OF p(2) wf1] by simp
  have b3: "below (disk s3) (disk s2)" using extension_sweep_below [OF p(3)] .
  from file_phase_done [OF p(1)] n
  have "lstat (disk s1) (os_path_join root_dir name) = Inl FileNotFoundError" by simp
  from lstat_gone_below [OF b3 lstat_gone_below [OF b2 this]] p(4)
  show "lstat (disk s') (os_path_join root_dir name) = Inl FileNotFoundError" by simp
qed

subsection \<open>What \<^verbatim>\<open>shutil.rmtree\<close> leaves behind\<close>

lemma stuck_append: "stuck_entries w (a @ b) = (stuck_entries w a \<and> stuck_entries w b)"
  by (induction w a rule: stuck_entries.induct) auto

lemma rm_stuck: "stuck_entries w (rm_entries w es)"
  by (induction w es rule: rm_entries.induct) (auto simp: Let_def stuck_append)

lemma stuck_fix: "stuck_entries w es \<Longrightarrow> rm_entries w es = es"
  by (induction w es rule: rm_entries.induct) (auto simp: Let_def)

lemma stuck_lookup_aux:
  "(case d of Dir w es \<Rightarrow> stuck_entries w es | _ \<Rightarrow> True) \<Longrightarrow> lookup d r = Some (Dir w' es') \<Longrightarrow>
     stuck_entries w' es'"
  "stuck_entries w0 es0 \<Longrightarrow> lookup_in es0 c cs = Some (Dir w' es') \<Longrightarrow> stuck_entries w' es'"
proof (induction d r and es0 c cs arbitrary: and w0 rule: lookup_lookup_in.induct)
  case (6 n x r c cs)
  show ?case
  proof (cases "n = c")
    case True
    with "6.prems" have l: "lookup x cs = Some (Dir w' es')" by simp
    from "6.prems"(1) have "case x of Dir w es \<Rightarrow> stuck_entries w es | _ \<Rightarrow> True"
      by (cases x) auto
    from "6.IH"(1) [OF True this l] show ?thesis .
  next
    case False
    with "6.prems" have l: "lookup_in r c cs = Some (Dir w' es')" by simp
    from "6.prems"(1) have "stuck_entries w0 r" by (cases x) auto
    from "6.IH"(2) [OF False this l] show ?thesis .
  qed
qed auto

lemma stuck_lookup:
  "stuck_entries w es \<Longrightarrow> lookup (Dir w es) r = Some (Dir w' es') \<Longrightarrow> stuck_entries w' es'"
  using stuck_lookup_aux(1) [of "Dir w es" r w' es'] by simp

lemma stuck_nondir:
  "stuck_entries w es \<Longrightarrow> w \<Longrightarrow> lookup_in es n [] = Some y \<Longrightarrow> \<exists>w' es'. y = Dir w' es'"
  by (induction w es rule: stuck_entries.induct) (auto split: if_splits)

lemma rmtree_lookup_apart:
  assumes "lstat d s = Inr p" "\<not> prefix p q" "\<not> prefix q p"
  shows "lookup (shutil_rmtree_ignore_errors s d) q = lookup d q"
proof -
  have "lookup (os_rmdir_ignore p (modify_at p (rm_entries w) d)) q = lookup d q" for w
  proof -
    let ?d1 = "modify_at p (rm_entries w) d"
    have 1: "lookup ?d1 q = lookup d q" using assms(2,3) by (rule lookup_modify_diverge(1))
    from os_rmdir_ignore_cases [of p ?d1] show ?thesis
    proof
      assume a: "p \<noteq> [] \<and> os_rmdir_ignore p ?d1 = unlink_entry (butlast p) (last p) ?d1"
      have "\<not> prefix (butlast p @ [last p]) q" using a assms(2) by simp
      moreover have "\<not> prefix q (butlast p)"
        using assms(3) a by (metis append_butlast_last_id prefix_order.trans prefixI)
      ultimately show ?thesis using a 1 by (simp add: lookup_unlink_apart)
    qed (simp add: 1)
  qed
  with rmtree_cases [of s d] assms(1) show ?thesis by auto
qed

lemma stuck_at_rmtree:
  assumes l: "lstat d s = Inr p" and ne: "p \<noteq> []"
  shows "stuck_at p (shutil_rmtree_ignore_errors s d)"
proof (cases "\<exists>w es. lookup d p = Some (Dir w es)")
  case False
  then have "shutil_rmtree_ignore_errors s d = d" using rmtree_not_dir [of d s] l by auto
  with False show ?thesis by (auto simp: stuck_at_def split: option.splits node.splits)
next
  case True
  then obtain w es where x: "lookup d p = Some (Dir w es)" by blast
  let ?d1 = "modify_at p (rm_entries w) d"
  have r: "shutil_rmtree_ignore_errors s d = os_rmdir_ignore p ?d1"
    using l x by (simp add: shutil_rmtree_ignore_errors_def)
  have x1: "lookup ?d1 p = Some (Dir w (rm_entries w es))"
    using x by (simp add: lookup_modify_at_same)
  have p: "butlast p @ [last p] = p" using ne by simp
  show ?thesis
  proof (cases "os_rmdir_ignore p ?d1 = ?d1")
    case True
    have "rm_entries w es \<noteq> [] \<or> look ?d1 (butlast p) \<noteq> Some (KDir True)"
    proof (rule ccontr)
      assume "\<not> (rm_entries w es \<noteq> [] \<or> look ?d1 (butlast p) \<noteq> Some (KDir True))"
      then have e: "rm_entries w es = []" and "look ?d1 (butlast p) = Some (KDir True)" by auto
      then obtain esa where pa: "lookup ?d1 (butlast p) = Some (Dir True esa)"
        by (auto simp: look_simps)
      from pa x1 e ne have "os_rmdir_ignore p ?d1 = unlink_entry (butlast p) (last p) ?d1"
        by (simp add: os_rmdir_ignore_def)
      with True have "unlink_entry (butlast p) (last p) ?d1 = ?d1" by simp
      then have "lookup (unlink_entry (butlast p) (last p) ?d1) p = lookup ?d1 p" by simp
      with lookup_unlink_under [of "butlast p" "last p" p ?d1] p x1 show False by simp
    qed
    with x1 rm_stuck [of w es] True r show ?thesis by (simp add: stuck_at_def)
  next
    case False
    with os_rmdir_ignore_cases [of p ?d1]
    have "os_rmdir_ignore p ?d1 = unlink_entry (butlast p) (last p) ?d1" by auto
    with lookup_unlink_under [of "butlast p" "last p" p ?d1] p r
    have "lookup (shutil_rmtree_ignore_errors s d) p = None" by simp
    then show ?thesis by (simp add: stuck_at_def)
  qed
qed

lemma stuck_at_keep:
  assumes s: "stuck_at p d" and b: "below d' d"
    and l: "lookup d' p = lookup d p \<or> (\<forall>w es. lookup d' p \<noteq> Some (Dir w es))"
  shows "stuck_at p d'"
proof (cases "\<exists>w es. lookup d' p = Some (Dir w es)")
  case False
  then show ?thesis by (auto simp: stuck_at_def split: option.splits node.splits)
next
  case True
  then obtain w es where x: "lookup d' p = Some (Dir w es)" by blast
  with l have x0: "lookup d p = Some (Dir w es)" by auto
  with s have st: "stuck_entries w es" "es \<noteq> [] \<or> look d (butlast p) \<noteq> Some (KDir True)"
    by (simp_all add: stuck_at_def)
  have "look d' (butlast p) = Some (KDir True) \<Longrightarrow> look d (butlast p) = Some (KDir True)"
    using belowD [OF b] by blast
  with st x show ?thesis by (auto simp: stuck_at_def)
qed

lemma stuck_at_unlink:
  assumes s: "stuck_at P d" and par: "look d p = Some (KDir True)"
    and y: "lookup d (p @ [n]) = Some y" "\<forall>w es. y \<noteq> Dir w es"
  shows "stuck_at P (unlink_entry p n d)"
proof (rule stuck_at_keep [OF s below_unlink])
  let ?d' = "unlink_entry p n d"
  show "lookup ?d' P = lookup d P \<or> (\<forall>w es. lookup ?d' P \<noteq> Some (Dir w es))"
  proof (cases "prefix (p @ [n]) P")
    case True
    from lookup_unlink_under [OF True] show ?thesis by simp
  next
    case np: False
    show ?thesis
    proof (cases "prefix P p")
      case False
      from lookup_unlink_apart [OF np False] show ?thesis by simp
    next
      case True
      then obtain r where r: "p = P @ r" by (auto simp: prefix_def)
      show ?thesis
      proof (cases "\<exists>w es. lookup d P = Some (Dir w es)")
        case True
        then obtain w es where x: "lookup d P = Some (Dir w es)" by blast
        with s have st: "stuck_entries w es" by (simp add: stuck_at_def)
        from par obtain esp where lp: "lookup d p = Some (Dir True esp)" by (auto simp: look_simps)
        with x r lookup_append(1) [of d P r] have "lookup (Dir w es) r = Some (Dir True esp)"
          by simp
        from stuck_lookup [OF st this] have sp: "stuck_entries True esp" .
        from y(1) lp lookup_snoc [of d p n] have "lookup_in esp n [] = Some y" by simp
        from stuck_nondir [OF sp _ this] y(2) show ?thesis by simp
      next
        case False
        have nd: "lookup ?d' P \<noteq> Some (Dir w es)" for w es
        proof
          assume "lookup ?d' P = Some (Dir w es)"
          then have "look ?d' P = Some (KDir w)" by (simp add: look_def)
          from belowD [OF below_unlink this] False show False by (simp add: look_simps)
        qed
        then show ?thesis by simp
      qed
    qed
  qed
qed

lemma sweep_steps_stuck:
  "sweep_step\<^sup>*\<^sup>* s s' \<Longrightarrow> stuck_at P (disk s) \<Longrightarrow> stuck_at P (disk s')"
proof (induction rule: rtranclp_induct)
  case base
  then show ?case .
next
  case (step y z)
  from step.hyps(2) obtain p n x where
    "look (disk y) p = Some (KDir True)" "lookup (disk y) (p @ [n]) = Some x"
    "\<forall>w es. x \<noteq> Dir w es" "disk z = unlink_entry p n (disk y)"
    by (auto simp: sweep_step_def)
  with stuck_at_unlink [OF step.IH [OF step.prems]] show ?case by simp
qed

subsection \<open>The listed directories after the directory phase\<close>

lemma lstat_listed:
  assumes root: "lookup d (components root_dir) = Some (Dir w es)"
    and docs: "\<forall>t. lookup d (components root_dir @ [''docs'']) \<noteq> Some (Link t)"
    and name: "name \<in> DIRS_TO_CLEAN"
  shows "(lookup d (components root_dir @ components name) = None \<and>
            (\<exists>e. lstat d (os_path_join root_dir name) = Inl e)) \<or>
         lstat d (os_path_join root_dir name) = Inr (components root_dir @ components name)"
proof -
  let ?R = "components root_dir"
  let ?path = "os_path_join root_dir name"
  from DIRS_components [OF name] have cs: "components ?path = ?R @ components name"
    using components_join [of name root_dir] by auto
  show ?thesis
  proof (cases "name = ''docs/build''")
    case False
    with DIRS_components [OF name] have c1: "components name = [name]" by auto
    from lstat_physical [OF _ root, of ?path name] cs c1 show ?thesis
      by (auto split: option.splits)
  next
    case True
    with DIRS_components [OF name] have c2: "components name = [''docs'', ''build'']"
      by (auto simp: valid_name_def)
    with cs have cs2: "components ?path = ?R @ [''docs'', ''build'']" by simp
    show ?thesis
    proof (cases "lookup d (?R @ [''docs''])")
      case None
      have "lookup d (?R @ [''docs'', ''build'']) = None"
        using None lookup_append(1) [of d "?R @ [''docs'']" "[''build'']"] by simp
      with lstat_parent_absent [OF root None cs2] c2 show ?thesis by simp
    next
      case (Some y)
      show ?thesis
      proof (cases y)
        case (File c)
        have "lookup d (?R @ [''docs'', ''build'']) = None"
          using Some File lookup_append(1) [of d "?R @ [''docs'']" "[''build'']"] by simp
        with resolve_physical_file [of d "?R @ [''docs'']" c ?path "''build''"] Some File cs2 c2
        show ?thesis by simp
      next
        case (Dir w' es')
        from lstat_physical [of ?path "?R @ [''docs'']" "''build''" d w' es'] Some Dir cs2 c2
        show ?thesis by (auto split: option.splits)
      next
        case (Link t)
        with Some docs show ?thesis by simp
      qed
    qed
  qed
qed

lemma rmtree_again:
  assumes root: "lookup d (components root_dir) = Some (Dir w es)"
    and docs: "\<forall>t. lookup d (components root_dir @ [''docs'']) \<noteq> Some (Link t)"
    and name: "name \<in> DIRS_TO_CLEAN"
    and st: "stuck_at (components root_dir @ components name) d"
  shows "shutil_rmtree_ignore_errors (os_path_join root_dir name) d = d"
proof -
  let ?P = "components root_dir @ components name"
  let ?path = "os_path_join root_dir name"
  from lstat_listed [OF root docs name] show ?thesis
  proof
    assume "lookup d ?P = None \<and> (\<exists>e. lstat d ?path = Inl e)"
    then show ?thesis using rmtree_lstat_fails by auto
  next
    assume l: "lstat d ?path = Inr ?P"
    show ?thesis
    proof (cases "\<exists>w es. lookup d ?P = Some (Dir w es)")
      case False
      with l show ?thesis by (intro rmtree_not_dir) auto
    next
      case True
      then obtain w' es' where x: "lookup d ?P = Some (Dir w' es')" by blast
      with st have s: "stuck_entries w' es'" "es' \<noteq> [] \<or> look d (butlast ?P) \<noteq> Some (KDir True)"
        by (simp_all add: stuck_at_def)
      have m: "modify_at ?P (rm_entries w') d = d"
      proof (rule modify_at_id(1))
        fix w2 es2 assume "lookup d ?P = Some (Dir w2 es2)"
        with x s(1) show "rm_entries w' es2 = es2" by (simp add: stuck_fix)
      qed
      have "os_rmdir_ignore ?P d = d"
        using s(2) x
        by (auto simp: os_rmdir_ignore_def look_def split: option.splits node.splits list.splits)
      with l x m show ?thesis by (simp add: shutil_rmtree_ignore_errors_def)
    qed
  qed
qed

lemma DIRS_diverge:
  assumes "a \<in> DIRS_TO_CLEAN" "b \<in> DIRS_TO_CLEAN" "components a \<noteq> components b"
  shows "\<not> prefix (components a) (components b)"
  using DIRS_components [OF assms(1)] DIRS_components [OF assms(2)] assms(3) by auto

lemma dir_phase_stuck:
  assumes "set xs \<subseteq> DIRS_TO_CLEAN" and "wf_node (disk s)"
    and "lookup (disk s) (components root_dir) = Some (Dir w es)"
    and "\<forall>t. lookup (disk s) (components root_dir @ [''docs'']) \<noteq> Some (Link t)"
    and "for_each (remove_dir root_dir) xs s = Inr s'"
    and "N \<subseteq> DIRS_TO_CLEAN"
    and "\<forall>name \<in> N. stuck_at (components root_dir @ components name) (disk s)"
  shows "\<forall>name \<in> N \<union> set xs. stuck_at (components root_dir @ components name) (disk s')"
  using assms
proof (induction xs arbitrary: s es N)
  case Nil
  then show ?case by simp
next
  case (Cons x xs)
  let ?R = "components root_dir"
  let ?d = "disk s"
  let ?d1 = "shutil_rmtree_ignore_errors (os_path_join root_dir x) (disk s)"
  from Cons.prems(5) obtain s1 where s1: "remove_dir root_dir x s = Inr s1"
    and r: "for_each (remove_dir root_dir) xs s1 = Inr s'"
    by (auto split: sum.splits)
  from s1 have d1: "disk s1 = ?d1" by (auto simp: remove_dir_def)
  have x: "x \<in> DIRS_TO_CLEAN" using Cons.prems(1) by simp
  have wf1: "wf_node (disk s1)" using rmtree_wf [OF Cons.prems(2)] d1 by simp
  have b1: "below ?d1 ?d" using rmtree_below [OF Cons.prems(2)] .
  have fr: "look ?d1 q = look ?d q" if "\<not> prefix (?R @ components x) q" for q
    using rmtree_region [OF Cons.prems(3,4) x that] .
  have ne: "components n \<noteq> [] \<and> \<not> prefix (?R @ components n) ?R \<and>
      \<not> prefix (?R @ components n) (?R @ [''docs''])" if "n \<in> DIRS_TO_CLEAN" for n
    using DIRS_components [OF that] by auto
  have "look ?d1 ?R = look ?d ?R" using fr ne [OF x] by simp
  with Cons.prems(3) d1 obtain es1 where root1: "lookup (disk s1) ?R = Some (Dir w es1)"
    by (auto simp: look_def)
  have "look ?d1 (?R @ [''docs'']) = look ?d (?R @ [''docs''])" using fr ne [OF x] by simp
  then have "look (disk s1) (?R @ [''docs'']) \<noteq> Some (KLink t)" for t
    using Cons.prems(4) d1 by (simp add: look_simps)
  then have docs1: "\<forall>t. lookup (disk s1) (?R @ [''docs'']) \<noteq> Some (Link t)"
    by (simp add: look_simps)
  have st1: "stuck_at (?R @ components name) ?d1" if n: "name \<in> insert x N" for name
  proof -
    have nd: "name \<in> DIRS_TO_CLEAN" using n x Cons.prems(6) by auto
    have old: "stuck_at (?R @ components name) ?d" if "name \<in> N"
      using that Cons.prems(7) by simp
    from lstat_listed [OF Cons.prems(3,4) x] show ?thesis
    proof
      assume a: "lookup ?d (?R @ components x) = None \<and>
          (\<exists>e. lstat ?d (os_path_join root_dir x) = Inl e)"
      then have same: "?d1 = ?d" using rmtree_lstat_fails by auto
      show ?thesis
      proof (cases "name \<in> N")
        case True
        with old same show ?thesis by simp
      next
        case False
        with n have "name = x" by simp
        with a same show ?thesis by (simp add: stuck_at_def)
      qed
    next
      assume l: "lstat ?d (os_path_join root_dir x) = Inr (?R @ components x)"
      show ?thesis
      proof (cases "components name = components x")
        case True
        from stuck_at_rmtree [OF l] ne [OF x] True show ?thesis by simp
      next
        case False
        then have nx: "name \<noteq> x" by auto
        with n have inN: "name \<in> N" by simp
        from DIRS_diverge [OF nd x False] DIRS_diverge [OF x nd] False
        have "\<not> prefix (?R @ components x) (?R @ components name)"
          "\<not> prefix (?R @ components name) (?R @ components x)" by auto
        from rmtree_lookup_apart [OF l this]
        have "lookup ?d1 (?R @ components name) = lookup ?d (?R @ components name)" .
        with stuck_at_keep [OF old [OF inN] b1] show ?thesis by simp
      qed
    qed
  qed
  have "\<forall>name \<in> insert x N \<union> set xs. stuck_at (?R @ components name) (disk s')"
  proof (rule Cons.IH [OF _ wf1 root1 docs1 r])
    show "set xs \<subseteq> DIRS_TO_CLEAN" using Cons.prems(1) by simp
    show "insert x N \<subseteq> DIRS_TO_CLEAN" using x Cons.prems(6) by simp
    show "\<forall>name \<in> insert x N. stuck_at (?R @ components name) (disk s1)"
      using st1 d1 by simp
  qed
  then show ?case by simp
qed

lemma not_link_below:
  assumes "below d' d" "\<forall>t. lookup d q \<noteq> Some (Link t)"
  shows "\<forall>t. lookup d' q \<noteq> Some (Link t)"
proof (intro allI notI)
  fix t assume "lookup d' q = Some (Link t)"
  then have "look d' q = Some (KLink t)" by (simp add: look_def)
  from belowD [OF assms(1) this] assms(2) show False by (simp add: look_simps)
qed

lemma extension_sweep_again:
  assumes wf: "wf_node (disk s)" and run: "extension_sweep root_dir s = Inr s'"
    and t: "disk t = disk s'" "removed_count t = 0"
    and root: "lookup (disk s') (components root_dir) = Some (Dir w es)"
    and nt: "\<forall>l. lookup (disk s') (components root_dir @ [''nautilus_trader'']) \<noteq> Some (Link l)"
    and ex: "\<forall>l. lookup (disk s') (components root_dir @ [''examples'']) \<noteq> Some (Link l)"
  shows "extension_sweep root_dir t = Inr t"
proof -
  let ?R = "components root_dir"
  let ?top = "root_dir @ ''/nautilus_trader/''" and ?etop = "root_dir @ ''/examples/''"
  let ?s0 = "s\<lparr>removed_count := 0\<rparr>"
  from extension_sweep_runs [OF run] obtain s1 where
    r1: "sweep ?top ?s0 = Inr s1" and r2: "sweep ?etop s1 = Inr s'" by blast
  have st1: "sweep_step\<^sup>*\<^sup>* ?s0 s1" using r1 by (rule sweep_steps(1))
  have st2: "sweep_step\<^sup>*\<^sup>* s1 s'" using r2 by (rule sweep_steps(1))
  have wf0: "wf_node (disk ?s0)" using wf by simp
  have wf1: "wf_node (disk s1)" using sweep_step_wf [OF st1 wf0] .
  have wf': "wf_node (disk t)" using sweep_step_wf [OF st2 wf1] t(1) by simp
  have b1: "below (disk t) (disk s1)" using sweep_step_below [OF st2] t(1) by simp
  have b2: "below (disk t) (disk s')" using t(1) by simp
  have t0: "t\<lparr>removed_count := 0\<rparr> = t" using t(2) by simp
  have 1: "sweep ?top t = Inr t"
    using sweep_again [OF wf0 r1 b1 wf' components_subtrees(1)] root nt t(1) by simp
  have 2: "sweep ?etop t = Inr t"
    using sweep_again [OF wf1 r2 b2 wf' components_subtrees(2)] root ex t(1) by simp
  from 1 2 t0 show ?thesis by (simp add: extension_sweep_def)
qed

section \<open>A sweep over a subtree that is not there\<close>

text \<open>
  C8. When the root of a swept subtree (\<^verbatim>\<open>root/nautilus_trader/\<close> or \<^verbatim>\<open>root/examples/\<close>)
  does not exist, that is when \<^verbatim>\<open>stat\<close> on it fails with \<^verbatim>\<open>ENOENT\<close>, \<^verbatim>\<open>os.walk\<close> yields
  nothing, and the sweep over it ends without an error in the state it started in: no
  file is deleted and \<^verbatim>\<open>removed_count\<close> keeps its value.
\<close>

theorem sweep_missing_subtree:
  assumes "stat (disk s) subtree = Inl FileNotFoundError"
  shows "os_walk (disk s) subtree = [] \<and> sweep subtree s = Inr s"
  using assms by (simp add: os_walk_def sweep_def)

theorem sweep_missing_subtree_witness:
  "stat (disk \<lparr>disk = tree_covdir, stdout = [], removed_count = 0\<rparr>) ''/r/examples/''
     = Inl FileNotFoundError \<and>
   os_walk (disk \<lparr>disk = tree_covdir, stdout = [], removed_count = 0\<rparr>) ''/r/examples/'' = [] \<and>
   sweep ''/r/examples/'' \<lparr>disk = tree_covdir, stdout = [], removed_count = 0\<rparr>
     = Inr \<lparr>disk = tree_covdir, stdout = [], removed_count = 0\<rparr>"
proof -
  have h: "stat (disk \<lparr>disk = tree_covdir, stdout = [], removed_count = 0\<rparr>) ''/r/examples/''
     = Inl FileNotFoundError"
    by code_simp
  from h sweep_missing_subtree [OF h] show ?thesis by simp
qed

section \<open>The extension sweep\<close>



text \<open>
  C7. When the extension sweep of a well-formed tree completes, every regular file whose
  name ends with none of the suffixes is still there with its contents, wherever it lies,
  so in particular under the two subtrees. Such entries do not enter the count: their
  number is unchanged, and \<^verbatim>\<open>removed_count\<close> is the loss among the entries whose name
  ends with a suffix.
\<close>

theorem extension_sweep_keeps_other_files:
  assumes wf: "wf_node (disk s)"
    and run: "extension_sweep root_dir s = Inr s'"
  shows "(\<forall>p c. p \<noteq> [] \<longrightarrow> \<not> matches (last p) \<longrightarrow> lookup (disk s) p = Some (File c) \<longrightarrow>
            lookup (disk s') p = Some (File c)) \<and>
         count_leaves (\<lambda>n y. \<not> matches n) (disk s') = count_leaves (\<lambda>n y. \<not> matches n) (disk s) \<and>
         count_leaves (\<lambda>n y. matches n) (disk s) =
           count_leaves (\<lambda>n y. matches n) (disk s') + removed_count s'"
proof -
  let ?s0 = "s\<lparr>removed_count := 0\<rparr>"
  have st: "sweep_step\<^sup>*\<^sup>* ?s0 s'" using extension_sweep_steps [of root_dir s s'] run by simp
  have wf0: "wf_node (disk ?s0)" using wf by simp
  have "lookup (disk s') p = Some (File c)"
    if "p \<noteq> []" "\<not> matches (last p)" "lookup (disk s) p = Some (File c)" for p c
  proof -
    from sweep_step_look [OF st, of p] that(2) have "look (disk s') p = look (disk s) p" by auto
    with that(3) show ?thesis by (simp add: look_def)
  qed
  moreover have "count_leaves (\<lambda>n y. \<not> matches n) (disk s') =
      count_leaves (\<lambda>n y. \<not> matches n) (disk ?s0)"
    by (rule sweep_step_count_others [OF st wf0]) simp
  moreover have "count_leaves (\<lambda>n y. matches n) (disk ?s0) + removed_count ?s0 =
      count_leaves (\<lambda>n y. matches n) (disk s') + removed_count s'"
    by (rule sweep_step_count [OF st wf0]) simp
  ultimately show ?thesis by simp
qed

theorem extension_sweep_keeps_other_files_witness:
  "wf_node tree_project \<and>
   extension_sweep ''/r'' \<lparr>disk = tree_project, stdout = [], removed_count = 0\<rparr> =
     Inr \<lparr>disk = tree_project_swept, stdout = [], removed_count = 3\<rparr> \<and>
   \<not> matches ''keep.py'' \<and>
   lookup tree_project [''r'', ''nautilus_trader'', ''keep.py''] = Some (File ''py'') \<and>
   lookup tree_project_swept [''r'', ''nautilus_trader'', ''keep.py''] = Some (File ''py'') \<and>
   count_leaves (\<lambda>n y. \<not> matches n) tree_project_swept = 2 \<and>
   count_leaves (\<lambda>n y. \<not> matches n) tree_project = 2 \<and>
   count_leaves (\<lambda>n y. matches n) tree_project = count_leaves (\<lambda>n y. matches n) tree_project_swept + 3"
proof -
  let ?s = "\<lparr>disk = tree_project, stdout = [], removed_count = 0\<rparr>"
  let ?s' = "\<lparr>disk = tree_project_swept, stdout = [], removed_count = 3\<rparr>"
  have wf: "wf_node (disk ?s)" by code_simp
  have run: "extension_sweep ''/r'' ?s = Inr ?s'" by code_simp
  note c = extension_sweep_keeps_other_files [OF wf run]
  have m: "\<not> matches (last [''r'', ''nautilus_trader'', ''keep.py''])" by code_simp
  have b: "lookup (disk ?s) [''r'', ''nautilus_trader'', ''keep.py''] = Some (File ''py'')"
    by code_simp
  from c m b have "lookup (disk ?s') [''r'', ''nautilus_trader'', ''keep.py''] = Some (File ''py'')"
    by blast
  moreover have "count_leaves (\<lambda>n y. \<not> matches n) tree_project = 2" by code_simp
  moreover from c have "count_leaves (\<lambda>n y. \<not> matches n) (disk ?s') =
      count_leaves (\<lambda>n y. \<not> matches n) (disk ?s)" by blast
  moreover from c have "count_leaves (\<lambda>n y. matches n) (disk ?s) =
      count_leaves (\<lambda>n y. matches n) (disk ?s') + removed_count ?s'" by blast
  ultimately show ?thesis using wf run m b by simp
qed

section \<open>Symbolic links in the swept subtrees\<close>




section \<open>The file phase\<close>

text \<open>
  C4. For an iteration order of the three file names and a well-formed tree:
  after a run that completes, none of \<^verbatim>\<open>root/.coverage\<close>, \<^verbatim>\<open>root/coverage.xml\<close>,
  \<^verbatim>\<open>root/dump.rdb\<close> exists; a name that does not exist is passed over with the state
  unchanged, nothing printed and no error; any other failure of \<^verbatim>\<open>os.remove\<close> is raised
  out of the loop with the state as it was; a file phase that raises aborts the run with
  that exception, which is never \<^verbatim>\<open>FileNotFoundError\<close>; and in a root directory without
  write permission that holds one of the names, the run aborts with \<^verbatim>\<open>PermissionError\<close>
  and nothing changed.
\<close>

theorem file_phase_removes_or_raises:
  assumes it: "iterates forder FILES_TO_CLEAN" and wf: "wf_node d"
  shows "(\<forall>s'. cleanup forder dorder root_dir d = Inr s' \<longrightarrow>
            (\<forall>name \<in> FILES_TO_CLEAN.
               lstat (disk s') (os_path_join root_dir name) = Inl FileNotFoundError)) \<and>
         (\<forall>s name. lstat (disk s) (os_path_join root_dir name) = Inl FileNotFoundError \<longrightarrow>
            remove_file root_dir name s = Inr s) \<and>
         (\<forall>s name e. os_remove (os_path_join root_dir name) (disk s) = Inl e \<longrightarrow>
            e \<noteq> FileNotFoundError \<longrightarrow> remove_file root_dir name s = Inl (e, s)) \<and>
         (\<forall>e s'. file_phase forder root_dir
               \<lparr>disk = d, stdout = [''root_dir='' @ root_dir], removed_count = 0\<rparr> = Inl (e, s') \<longrightarrow>
            e \<noteq> FileNotFoundError \<and> cleanup forder dorder root_dir d = Inl (e, s')) \<and>
         (\<forall>es. lookup d (components root_dir) = Some (Dir False es) \<longrightarrow>
            (\<exists>name \<in> FILES_TO_CLEAN. lookup d (components root_dir @ [name]) \<noteq> None) \<longrightarrow>
            cleanup forder dorder root_dir d =
              Inl (PermissionError,
                   \<lparr>disk = d, stdout = [''root_dir='' @ root_dir], removed_count = 0\<rparr>))"
proof (intro conjI allI impI)
  let ?s0 = "\<lparr>disk = d, stdout = [''root_dir='' @ root_dir], removed_count = 0\<rparr>"
  from it have set: "set forder = FILES_TO_CLEAN" by (simp add: iterates_def)
  {
    fix s' assume run: "cleanup forder dorder root_dir d = Inr s'"
    from cleanup_Inr [OF run] obtain s1 s2 s3 where p:
      "file_phase forder root_dir ?s0 = Inr s1" "dir_phase dorder root_dir s1 = Inr s2"
      "extension_sweep root_dir s2 = Inr s3" "disk s' = disk s3"
      by (metis (no_types, lifting) state.select_convs(1) state.surjective state.update_convs(2))
    have wf1: "wf_node (disk s1)" using file_phase_below [OF p(1)] wf by simp
    have b2: "below (disk s2) (disk s1)" using dir_phase_below [OF p(2) wf1] by simp
    have b3: "below (disk s3) (disk s2)" using extension_sweep_below [OF p(3)] .
    show "\<forall>name \<in> FILES_TO_CLEAN.
        lstat (disk s') (os_path_join root_dir name) = Inl FileNotFoundError"
    proof
      fix name assume "name \<in> FILES_TO_CLEAN"
      with file_phase_done [OF p(1)] set
      have "lstat (disk s1) (os_path_join root_dir name) = Inl FileNotFoundError" by simp
      from lstat_gone_below [OF b3 lstat_gone_below [OF b2 this]] p(4) show
        "lstat (disk s') (os_path_join root_dir name) = Inl FileNotFoundError" by simp
    qed
  }
  {
    fix s :: state and name
    assume "lstat (disk s) (os_path_join root_dir name) = Inl FileNotFoundError"
    then show "remove_file root_dir name s = Inr s"
      by (simp add: remove_file_def os_remove_def)
  }
  {
    fix s :: state and name e
    assume "os_remove (os_path_join root_dir name) (disk s) = Inl e" "e \<noteq> FileNotFoundError"
    then show "remove_file root_dir name s = Inl (e, s)"
      by (cases e) (simp_all add: remove_file_def)
  }
  {
    fix e s' assume f: "file_phase forder root_dir ?s0 = Inl (e, s')"
    from file_phase_Inl [OF f] show "e \<noteq> FileNotFoundError" .
    from f show "cleanup forder dorder root_dir d = Inl (e, s')" by (simp add: cleanup_def)
  }
  {
    fix es
    assume root: "lookup d (components root_dir) = Some (Dir False es)"
      and ex: "\<exists>name \<in> FILES_TO_CLEAN. lookup d (components root_dir @ [name]) \<noteq> None"
    have "\<forall>n \<in> set forder. valid_name n" using set FILES_valid by simp
    from file_phase_readonly [of ?s0 root_dir es forder, OF _ this] root ex set
    have "file_phase forder root_dir ?s0 = Inl (PermissionError, ?s0)"
      by (simp add: file_phase_def)
    then show "cleanup forder dorder root_dir d = Inl (PermissionError, ?s0)"
      by (simp add: cleanup_def)
  }
qed

theorem file_phase_removes_or_raises_witness:
  "iterates files_order FILES_TO_CLEAN \<and> wf_node tree_project \<and> wf_node tree_readonly \<and>
   lookup tree_project [''r'', ''.coverage''] = Some (File ''cov'') \<and>
   (\<exists>s'. cleanup files_order dirs_order ''/r'' tree_project = Inr s' \<and>
      disk s' = tree_project_clean \<and>
      lstat (disk s') (os_path_join ''/r'' ''.coverage'') = Inl FileNotFoundError \<and>
      lstat (disk s') (os_path_join ''/r'' ''dump.rdb'') = Inl FileNotFoundError) \<and>
   lookup tree_readonly (components ''/r'') = Some (Dir False [(''.coverage'', File ''cov'')]) \<and>
   cleanup files_order dirs_order ''/r'' tree_readonly =
     Inl (PermissionError,
          \<lparr>disk = tree_readonly, stdout = [''root_dir='' @ ''/r''], removed_count = 0\<rparr>)"
proof -
  have it: "iterates files_order FILES_TO_CLEAN" by code_simp
  have wf: "wf_node tree_project" and wf': "wf_node tree_readonly" by code_simp+
  have before: "lookup tree_project [''r'', ''.coverage''] = Some (File ''cov'')" by code_simp
  have run: "case cleanup files_order dirs_order ''/r'' tree_project of
      Inr s' \<Rightarrow> disk s' = tree_project_clean | Inl x \<Rightarrow> False" by code_simp
  then obtain s' where s': "cleanup files_order dirs_order ''/r'' tree_project = Inr s'"
      "disk s' = tree_project_clean" by (auto split: sum.splits)
  have mem: "''.coverage'' \<in> FILES_TO_CLEAN" "''dump.rdb'' \<in> FILES_TO_CLEAN"
    by (simp_all add: FILES_TO_CLEAN_def)
  note c = file_phase_removes_or_raises [OF it wf, of dirs_order "''/r''"]
  from c s'(1) mem have gone:
    "lstat (disk s') (os_path_join ''/r'' ''.coverage'') = Inl FileNotFoundError"
    "lstat (disk s') (os_path_join ''/r'' ''dump.rdb'') = Inl FileNotFoundError" by blast+
  have root: "lookup tree_readonly (components ''/r'') = Some (Dir False [(''.coverage'', File ''cov'')])"
    by code_simp
  have ex: "\<exists>name \<in> FILES_TO_CLEAN. lookup tree_readonly (components ''/r'' @ [name]) \<noteq> None"
  proof (rule bexI [OF _ mem(1)])
    have "lookup tree_readonly (components ''/r'' @ [''.coverage'']) = Some (File ''cov'')"
      by code_simp
    then show "lookup tree_readonly (components ''/r'' @ [''.coverage'']) \<noteq> None" by simp
  qed
  note c' = file_phase_removes_or_raises [OF it wf', of dirs_order "''/r''"]
  from c' root ex have "cleanup files_order dirs_order ''/r'' tree_readonly =
     Inl (PermissionError,
          \<lparr>disk = tree_readonly, stdout = [''root_dir='' @ ''/r''], removed_count = 0\<rparr>)"
    by blast
  with it wf wf' before s' gone root show ?thesis by blast
qed

section \<open>Names on both lists\<close>

text \<open>
  C6, as the code has it. \<^verbatim>\<open>os.remove\<close> on a directory raises \<^verbatim>\<open>IsADirectoryError\<close>, and
  line 62 catches \<^verbatim>\<open>FileNotFoundError\<close> only. In the tree \<open>tree_covdir\<close>, where
  \<^verbatim>\<open>/r/coverage.xml\<close> is a directory, the run aborts in the file phase with that exception:
  nothing is deleted, and neither the directory phase nor the sweep is reached.
\<close>

theorem file_phase_on_directory_counterexample:
  "lookup tree_covdir [''r'', ''coverage.xml''] = Some (Dir True []) \<and>
   cleanup files_order dirs_order ''/r'' tree_covdir =
     Inl (IsADirectoryError,
          \<lparr>disk = tree_covdir, stdout = [''root_dir=/r''], removed_count = 0\<rparr>)"
  by code_simp

text \<open>
  C6, amended. \<^verbatim>\<open>coverage.xml\<close> and \<^verbatim>\<open>dump.rdb\<close> are on both lists, and both loops join
  the name to the same root. If the root is a real directory and \<^verbatim>\<open>root/name\<close> is a
  directory, then for every iteration order the run aborts in the file phase, with
  \<^verbatim>\<open>IsADirectoryError\<close> (or with \<^verbatim>\<open>PermissionError\<close>, when an earlier name of the loop
  could not be deleted), and the directory is still there. The other mismatch is harmless:
  \<^verbatim>\<open>shutil.rmtree\<close> with \<^verbatim>\<open>ignore_errors=True\<close> on a path that is not a directory changes
  nothing.
\<close>

theorem file_phase_on_directory_aborts:
  assumes it: "iterates forder FILES_TO_CLEAN"
    and root: "look d (components root_dir) = Some (KDir w)"
    and name: "name = ''coverage.xml'' \<or> name = ''dump.rdb''"
    and dir: "lookup d (components root_dir @ [name]) = Some (Dir w' es)"
  shows "name \<in> FILES_TO_CLEAN \<inter> DIRS_TO_CLEAN \<and>
         (\<exists>e s'. cleanup forder dorder root_dir d = Inl (e, s') \<and>
            (e = IsADirectoryError \<or> e = PermissionError) \<and>
            lookup (disk s') (components root_dir @ [name]) = Some (Dir w' es)) \<and>
         (\<forall>d' p. lstat d' (os_path_join root_dir name) = Inr p \<longrightarrow>
            (\<forall>w es. lookup d' p \<noteq> Some (Dir w es)) \<longrightarrow>
            shutil_rmtree_ignore_errors (os_path_join root_dir name) d' = d')"
proof (intro conjI allI impI)
  let ?s0 = "\<lparr>disk = d, stdout = [''root_dir='' @ root_dir], removed_count = 0\<rparr>"
  from name show mem: "name \<in> FILES_TO_CLEAN \<inter> DIRS_TO_CLEAN"
    by (auto simp: FILES_TO_CLEAN_def DIRS_TO_CLEAN_def)
  from it have set: "set forder = FILES_TO_CLEAN" by (simp add: iterates_def)
  have v: "\<forall>n \<in> set forder. valid_name n" using set FILES_valid by simp
  have n: "name \<in> set forder" using set mem by simp
  from file_phase_hits_dir [of forder name ?s0 root_dir w w' es, OF v n] root dir
  obtain e s' where h: "for_each (remove_file root_dir) forder ?s0 = Inl (e, s')"
    "e = IsADirectoryError \<or> e = PermissionError"
    "lookup (disk s') (components root_dir @ [name]) = Some (Dir w' es)" by auto
  from h(1) have "cleanup forder dorder root_dir d = Inl (e, s')"
    by (simp add: cleanup_def file_phase_def)
  with h(2,3) show "\<exists>e s'. cleanup forder dorder root_dir d = Inl (e, s') \<and>
            (e = IsADirectoryError \<or> e = PermissionError) \<and>
            lookup (disk s') (components root_dir @ [name]) = Some (Dir w' es)" by blast
next
  fix d' p
  assume "lstat d' (os_path_join root_dir name) = Inr p" "\<forall>w es. lookup d' p \<noteq> Some (Dir w es)"
  then show "shutil_rmtree_ignore_errors (os_path_join root_dir name) d' = d'"
    by (intro rmtree_not_dir) auto
qed

theorem file_phase_on_directory_aborts_witness:
  "iterates files_order FILES_TO_CLEAN \<and>
   look tree_covdir (components ''/r'') = Some (KDir True) \<and>
   lookup tree_covdir (components ''/r'' @ [''coverage.xml'']) = Some (Dir True []) \<and>
   ''coverage.xml'' \<in> FILES_TO_CLEAN \<inter> DIRS_TO_CLEAN \<and>
   (\<exists>e s'. cleanup files_order dirs_order ''/r'' tree_covdir = Inl (e, s') \<and>
      (e = IsADirectoryError \<or> e = PermissionError) \<and>
      lookup (disk s') (components ''/r'' @ [''coverage.xml'']) = Some (Dir True [])) \<and>
   lstat tree_covfile (os_path_join ''/r'' ''coverage.xml'') = Inr [''r'', ''coverage.xml''] \<and>
   lookup tree_covfile [''r'', ''coverage.xml''] = Some (File ''<coverage/>'') \<and>
   shutil_rmtree_ignore_errors (os_path_join ''/r'' ''coverage.xml'') tree_covfile = tree_covfile"
proof -
  have it: "iterates files_order FILES_TO_CLEAN" by code_simp
  have root: "look tree_covdir (components ''/r'') = Some (KDir True)" by code_simp
  have dir: "lookup tree_covdir (components ''/r'' @ [''coverage.xml'']) = Some (Dir True [])"
    by code_simp
  have l: "lstat tree_covfile (os_path_join ''/r'' ''coverage.xml'') = Inr [''r'', ''coverage.xml'']"
    by code_simp
  have f: "lookup tree_covfile [''r'', ''coverage.xml''] = Some (File ''<coverage/>'')"
    by code_simp
  then have nd: "\<forall>w es. lookup tree_covfile [''r'', ''coverage.xml''] \<noteq> Some (Dir w es)" by simp
  note c = file_phase_on_directory_aborts [OF it root _ dir, of dirs_order]
  from c l nd have
    "shutil_rmtree_ignore_errors (os_path_join ''/r'' ''coverage.xml'') tree_covfile = tree_covfile"
    by blast
  with it root dir l f c show ?thesis by blast
qed

section \<open>The directory phase\<close>



section \<open>What the directory phase leaves alone\<close>

text \<open>
  C9, as the code has it. \<^verbatim>\<open>shutil.rmtree\<close> deletes everything beneath a listed path, also
  a directory that bears a listed name itself. In the tree \<open>tree_nested\<close> the directory
  phase removes \<^verbatim>\<open>/r/build/__pycache__\<close>, which lies deeper than directly under the root,
  together with \<^verbatim>\<open>/r/build\<close>; \<^verbatim>\<open>/r/nautilus_trader/__pycache__\<close> stays.
\<close>

theorem nested_listed_name_counterexample:
  "lookup tree_nested [''r'', ''build'', ''__pycache__'']
     = Some (Dir True [(''m.pyc'', File ''c'')]) \<and>
   lookup tree_nested [''r'', ''nautilus_trader'', ''__pycache__''] = Some (Dir True []) \<and>
   (case dir_phase dirs_order ''/r'' \<lparr>disk = tree_nested, stdout = [], removed_count = 0\<rparr> of
      Inl x \<Rightarrow> False
    | Inr s' \<Rightarrow>
        lookup (disk s') [''r'', ''build'', ''__pycache__''] = None \<and>
        lookup (disk s') [''r'', ''nautilus_trader'', ''__pycache__''] = Some (Dir True []))"
  by code_simp

text \<open>
  C9, amended. Let the root be a real directory and \<^verbatim>\<open>root/docs\<close> not a symbolic link.
  The directory phase changes nothing outside the listed paths: every path that does not
  lie at or beneath \<^verbatim>\<open>root/name\<close> for a listed name (\<^verbatim>\<open>docs/build\<close> is one of them) names
  after the phase what it named before. So a directory bearing a listed name elsewhere in
  the tree is kept, unless it lies beneath one of the listed paths.
\<close>

theorem dir_phase_frame:
  assumes it: "iterates dorder DIRS_TO_CLEAN"
    and root: "lookup (disk s) (components root_dir) = Some (Dir w es)"
    and docs: "\<forall>t. lookup (disk s) (components root_dir @ [''docs'']) \<noteq> Some (Link t)"
    and run: "dir_phase dorder root_dir s = Inr s'"
  shows "\<forall>q. (\<forall>name \<in> DIRS_TO_CLEAN. \<not> prefix (components root_dir @ components name) q) \<longrightarrow>
           look (disk s') q = look (disk s) q"
proof -
  from it have "set dorder \<subseteq> DIRS_TO_CLEAN" by (simp add: iterates_def)
  from dir_phase_frame_aux [OF this root docs] run show ?thesis by (simp add: dir_phase_def)
qed

theorem dir_phase_frame_witness:
  "iterates dirs_order DIRS_TO_CLEAN \<and>
   lookup tree_nested (components ''/r'') =
     Some (Dir True
       [(''build'', Dir True [(''__pycache__'', Dir True [(''m.pyc'', File ''c'')])]),
        (''nautilus_trader'', Dir True [(''__pycache__'', Dir True [])])]) \<and>
   lookup tree_nested (components ''/r'' @ [''docs'']) = None \<and>
   look tree_nested [''r'', ''nautilus_trader'', ''__pycache__''] = Some (KDir True) \<and>
   (\<exists>s'. dir_phase dirs_order ''/r'' \<lparr>disk = tree_nested, stdout = [], removed_count = 0\<rparr> = Inr s' \<and>
      look (disk s') [''r'', ''nautilus_trader'', ''__pycache__''] = Some (KDir True))"
proof -
  let ?s = "\<lparr>disk = tree_nested, stdout = [], removed_count = 0\<rparr>"
  let ?q = "[''r'', ''nautilus_trader'', ''__pycache__'']"
  have it: "iterates dirs_order DIRS_TO_CLEAN" by code_simp
  have root: "lookup (disk ?s) (components ''/r'') =
     Some (Dir True
       [(''build'', Dir True [(''__pycache__'', Dir True [(''m.pyc'', File ''c'')])]),
        (''nautilus_trader'', Dir True [(''__pycache__'', Dir True [])])])" by code_simp
  have nd: "lookup (disk ?s) (components ''/r'' @ [''docs'']) = None" by code_simp
  then have docs: "\<forall>t. lookup (disk ?s) (components ''/r'' @ [''docs'']) \<noteq> Some (Link t)" by simp
  have before: "look (disk ?s) ?q = Some (KDir True)" by code_simp
  obtain s' where run: "dir_phase dirs_order ''/r'' ?s = Inr s'"
    using dir_phase_total [of dirs_order "''/r''" ?s] by blast
  have out: "\<forall>name \<in> DIRS_TO_CLEAN. \<not> prefix (components ''/r'' @ components name) ?q"
    by code_simp
  from dir_phase_frame [OF it root docs run] out before
  have "look (disk s') ?q = Some (KDir True)" by simp
  with it root nd before run show ?thesis by auto
qed

section \<open>A deletion of the sweep that fails\<close>



section \<open>Running the script twice\<close>

text \<open>
  C3. Let the tree be well formed, the project root a real directory, and none of
  \<^verbatim>\<open>root/docs\<close>, \<^verbatim>\<open>root/nautilus_trader\<close> and \<^verbatim>\<open>root/examples\<close> a symbolic link. If a run
  completes, then a second run on the file system it leaves, whatever the iteration orders
  of the two sets are this time, completes as well, leaves the file system exactly as it
  found it, and counts no file: it prints the root, one \<^verbatim>\<open>Removing dir\<close> line for every
  listed directory, no \<^verbatim>\<open>Removed:\<close> line, and the summary line for the count 0.
\<close>

theorem second_run_changes_nothing:
  assumes wf: "wf_node d"
    and root: "lookup d (components root_dir) = Some (Dir w es)"
    and docs: "\<forall>t. lookup d (components root_dir @ [''docs'']) \<noteq> Some (Link t)"
    and nt: "\<forall>t. lookup d (components root_dir @ [''nautilus_trader'']) \<noteq> Some (Link t)"
    and ex: "\<forall>t. lookup d (components root_dir @ [''examples'']) \<noteq> Some (Link t)"
    and it: "iterates forder FILES_TO_CLEAN" "iterates dorder DIRS_TO_CLEAN"
      "iterates forder' FILES_TO_CLEAN" "iterates dorder' DIRS_TO_CLEAN"
    and run: "cleanup forder dorder root_dir d = Inr s1"
  shows "cleanup forder' dorder' root_dir (disk s1) =
           Inr \<lparr>disk = disk s1,
                stdout = (''root_dir='' @ root_dir) #
                  map (\<lambda>n. ''Removing dir: '' @ n) dorder' @ [summary_line 0],
                removed_count = 0\<rparr>"
proof -
  let ?R = "components root_dir"
  let ?s0 = "\<lparr>disk = d, stdout = [''root_dir='' @ root_dir], removed_count = 0\<rparr>"
  from cleanup_Inr [OF run] obtain sA sB sC where p:
    "file_phase forder root_dir ?s0 = Inr sA" "dir_phase dorder root_dir sA = Inr sB"
    "extension_sweep root_dir sB = Inr sC"
    "s1 = sC\<lparr>stdout := stdout sC @ [summary_line (removed_count sC)]\<rparr>" by blast
  have D: "disk s1 = disk sC" using p(4) by simp
  have wfA: "wf_node (disk sA)" and bA: "below (disk sA) d"
    using file_phase_below [OF p(1)] wf by simp_all
  from root have "look (disk ?s0) ?R = Some (KDir w)" by (simp add: look_def)
  from file_phase_Dir [OF p(1) this] obtain esA where
    rootA: "lookup (disk sA) ?R = Some (Dir w esA)" by (auto simp: look_simps)
  have docsA: "\<forall>t. lookup (disk sA) (?R @ [''docs'']) \<noteq> Some (Link t)"
    using not_link_below [OF bA docs] .
  have wfB: "wf_node (disk sB)" and bB: "below (disk sB) (disk sA)"
    using dir_phase_below [OF p(2) wfA] by simp_all
  have sub: "set dorder \<subseteq> DIRS_TO_CLEAN" using it(2) by (simp add: iterates_def)
  have dp: "for_each (remove_dir root_dir) dorder sA = Inr sB"
    using p(2) by (simp add: dir_phase_def)
  from dir_phase_stuck [OF sub wfA rootA docsA dp, of "{}"] it(2)
  have stuckB: "\<forall>name \<in> DIRS_TO_CLEAN. stuck_at (?R @ components name) (disk sB)"
    by (simp add: iterates_def)
  have "\<not> prefix (?R @ components name) ?R" if "name \<in> DIRS_TO_CLEAN" for name
    using DIRS_components [OF that] by auto
  then have "\<forall>name \<in> DIRS_TO_CLEAN. \<not> prefix (?R @ components name) ?R" by blast
  with dir_phase_frame_aux [OF sub rootA docsA dp] have "look (disk sB) ?R = look (disk sA) ?R"
    by blast
  with rootA have rootB: "look (disk sB) ?R = Some (KDir w)" by (simp add: look_def)
  let ?sB0 = "sB\<lparr>removed_count := 0\<rparr>"
  have st: "sweep_step\<^sup>*\<^sup>* ?sB0 sC" using extension_sweep_steps [of root_dir sB sC] p(3) by simp
  have bC: "below (disk sC) (disk sB)" using sweep_step_below [OF st] by simp
  have wfC: "wf_node (disk sC)" using sweep_step_wf [OF st] wfB by simp
  have b: "below (disk sC) d" using below_trans [OF bC below_trans [OF bB bA]] .
  from sweep_steps_Dir [OF st, of ?R w] rootB obtain esC where
    rootC: "lookup (disk sC) ?R = Some (Dir w esC)" by (auto simp: look_simps)
  have docsC: "\<forall>t. lookup (disk sC) (?R @ [''docs'']) \<noteq> Some (Link t)"
    and ntC: "\<forall>t. lookup (disk sC) (?R @ [''nautilus_trader'']) \<noteq> Some (Link t)"
    and exC: "\<forall>t. lookup (disk sC) (?R @ [''examples'']) \<noteq> Some (Link t)"
    using not_link_below [OF b] docs nt ex by blast+
  have stuckC: "\<forall>name \<in> DIRS_TO_CLEAN. stuck_at (?R @ components name) (disk sC)"
    using sweep_steps_stuck [OF st] stuckB by simp
  let ?t0 = "\<lparr>disk = disk s1, stdout = [''root_dir='' @ root_dir], removed_count = 0\<rparr>"
  let ?t1 = "\<lparr>disk = disk s1,
      stdout = (''root_dir='' @ root_dir) # map (\<lambda>n. ''Removing dir: '' @ n) dorder',
      removed_count = 0\<rparr>"
  have "set forder' = set forder" using it(1,3) by (simp add: iterates_def)
  with cleanup_gone [OF wf run]
  have "\<forall>n \<in> set forder'. lstat (disk ?t0) (os_path_join root_dir n) = Inl FileNotFoundError"
    by simp
  then have f2: "file_phase forder' root_dir ?t0 = Inr ?t0" by (rule file_phase_noop)
  have "\<forall>n \<in> set dorder'.
      shutil_rmtree_ignore_errors (os_path_join root_dir n) (disk ?t0) = disk ?t0"
  proof
    fix n assume "n \<in> set dorder'"
    with it(4) have n: "n \<in> DIRS_TO_CLEAN" by (simp add: iterates_def)
    with stuckC have "stuck_at (?R @ components n) (disk sC)" by simp
    from rmtree_again [OF rootC docsC n this] D
    show "shutil_rmtree_ignore_errors (os_path_join root_dir n) (disk ?t0) = disk ?t0" by simp
  qed
  from dir_phase_noop [OF this] have d2: "dir_phase dorder' root_dir ?t0 = Inr ?t1" by simp
  have e2: "extension_sweep root_dir ?t1 = Inr ?t1"
    by (rule extension_sweep_again [OF _ p(3) _ _ rootC ntC exC]) (simp_all add: wfB D)
  from f2 d2 e2 show ?thesis by (simp add: cleanup_def)
qed

theorem second_run_changes_nothing_witness:
  "wf_node tree_project \<and>
   look tree_project (components ''/r'') = Some (KDir True) \<and>
   lookup tree_project (components ''/r'' @ [''docs'']) = None \<and>
   look tree_project (components ''/r'' @ [''nautilus_trader'']) = Some (KDir True) \<and>
   look tree_project (components ''/r'' @ [''examples'']) = Some (KDir True) \<and>
   iterates files_order FILES_TO_CLEAN \<and> iterates dirs_order DIRS_TO_CLEAN \<and>
   iterates (rev files_order) FILES_TO_CLEAN \<and> iterates (rev dirs_order) DIRS_TO_CLEAN \<and>
   (\<exists>s1. cleanup files_order dirs_order ''/r'' tree_project = Inr s1 \<and>
      disk s1 = tree_project_clean \<and> removed_count s1 = 3 \<and>
      cleanup (rev files_order) (rev dirs_order) ''/r'' tree_project_clean =
        Inr \<lparr>disk = tree_project_clean,
             stdout = (''root_dir='' @ ''/r'') #
               map (\<lambda>n. ''Removing dir: '' @ n) (rev dirs_order) @ [summary_line 0],
             removed_count = 0\<rparr>)"
proof -
  have wf: "wf_node tree_project" by code_simp
  have k: "look tree_project (components ''/r'') = Some (KDir True)"
    "lookup tree_project (components ''/r'' @ [''docs'']) = None"
    "look tree_project (components ''/r'' @ [''nautilus_trader'']) = Some (KDir True)"
    "look tree_project (components ''/r'' @ [''examples'']) = Some (KDir True)"
    by code_simp+
  have it: "iterates files_order FILES_TO_CLEAN" "iterates dirs_order DIRS_TO_CLEAN"
    "iterates (rev files_order) FILES_TO_CLEAN" "iterates (rev dirs_order) DIRS_TO_CLEAN"
    by code_simp+
  from k(1) obtain es where root: "lookup tree_project (components ''/r'') = Some (Dir True es)"
    by (auto simp: look_simps)
  have docs: "\<forall>t. lookup tree_project (components ''/r'' @ [''docs'']) \<noteq> Some (Link t)"
    using k(2) by simp
  have nt: "\<forall>t. lookup tree_project (components ''/r'' @ [''nautilus_trader'']) \<noteq> Some (Link t)"
    using k(3) by (auto simp: look_simps)
  have ex: "\<forall>t. lookup tree_project (components ''/r'' @ [''examples'']) \<noteq> Some (Link t)"
    using k(4) by (auto simp: look_simps)
  have "case cleanup files_order dirs_order ''/r'' tree_project of
      Inr s1 \<Rightarrow> disk s1 = tree_project_clean \<and> removed_count s1 = 3 | Inl x \<Rightarrow> False"
    by code_simp
  then obtain s1 where run: "cleanup files_order dirs_order ''/r'' tree_project = Inr s1"
    and s1: "disk s1 = tree_project_clean" "removed_count s1 = 3"
    by (auto split: sum.splits)
  from second_run_changes_nothing [OF wf root docs nt ex it run] s1(1)
  have "cleanup (rev files_order) (rev dirs_order) ''/r'' tree_project_clean =
        Inr \<lparr>disk = tree_project_clean,
             stdout = (''root_dir='' @ ''/r'') #
               map (\<lambda>n. ''Removing dir: '' @ n) (rev dirs_order) @ [summary_line 0],
             removed_count = 0\<rparr>" by simp
  with wf k it run s1 show ?thesis by blast
qed

end
